theory Spec2Isabelle
  imports Main "HOL-Library.Word" "HOL-Library.Multiset"
begin

section \<open>Large temp table blocks: data model\<close>

text \<open>
  The development follows \<^verbatim>\<open>src/ee/storage/LargeTempTableBlock.h\<close> (the block, its
  iterator, pin and unpin) and the in-place block sorter \<^verbatim>\<open>LTTBlockSorter\<close> of the
  accompanying test file.

  Addresses (\<^verbatim>\<open>char*\<close>) and iterator offsets (\<^verbatim>\<open>std::ptrdiff_t\<close>) are mathematical
  integers: pointer arithmetic that leaves the addressable range and signed overflow
  have no defined result in the source language, so no wrap-around is modelled.
  Memory is one flat map from addresses to bytes; a block's storage, the sorter's
  scratch tuple and every non-inlined object live in it.
\<close>

type_synonym byte = "8 word"
type_synonym address = int
type_synonym memory = "address \<Rightarrow> byte"

datatype error = AssertionFailed | DivisionByZero

text \<open>\<^verbatim>\<open>TUPLE_HEADER_SIZE\<close>: the one status byte in front of the inline body
  (\<^verbatim>\<open>struct Tuple { char m_statusByte; char m_tupleData[]; }\<close>).\<close>

definition TUPLE_HEADER_SIZE :: int where
  "TUPLE_HEADER_SIZE = 1"

definition BLOCK_SIZE_IN_BYTES :: int where
  "BLOCK_SIZE_IN_BYTES = 8 * 1024 * 1024"

text \<open>What the block and the sorter consume of a schema: the width of the inline body
  and the offsets, within a stored tuple, of the fields that hold a reference to a
  non-inlined object.\<close>

record TupleSchema =
  tupleLength :: int
  stringRefOffsets :: "int list"

text \<open>The fields of the block. \<^verbatim>\<open>m_storage\<close> is the address the owning pointer holds,
  \<open>0\<close> (\<^verbatim>\<open>NULL\<close>) when the block is not resident.\<close>

record LargeTempTableBlock =
  m_id :: int
  m_schema :: TupleSchema
  m_storage :: address
  m_tupleInsertionPoint :: address
  m_nonInlinedInsertionPoint :: address
  m_isPinned :: bool
  m_isStored :: bool
  m_activeTupleCount :: int

definition address_of :: "LargeTempTableBlock \<Rightarrow> address" where
  "address_of blk = m_storage blk"

definition isResident :: "LargeTempTableBlock \<Rightarrow> bool" where
  "isResident blk = (m_storage blk \<noteq> 0)"

definition isStored :: "LargeTempTableBlock \<Rightarrow> bool" where
  "isStored blk = m_isStored blk"

definition activeTupleCount :: "LargeTempTableBlock \<Rightarrow> int" where
  "activeTupleCount blk = m_activeTupleCount blk"

subsection \<open>Pinning\<close>

definition isPinned :: "LargeTempTableBlock \<Rightarrow> bool" where
  "isPinned blk = m_isPinned blk"

definition pin :: "LargeTempTableBlock \<Rightarrow> error + LargeTempTableBlock" where
  "pin blk = (if \<not> m_isPinned blk then Inr (blk\<lparr>m_isPinned := True\<rparr>) else Inl AssertionFailed)"

definition unpin :: "LargeTempTableBlock \<Rightarrow> error + LargeTempTableBlock" where
  "unpin blk = (if m_isPinned blk then Inr (blk\<lparr>m_isPinned := False\<rparr>) else Inl AssertionFailed)"

subsection \<open>The block iterator\<close>

record LttBlockIterator =
  m_tupleLength :: int
  m_tupleAddress :: address

text \<open>The default constructor, the constructor from a schema and the one from a length.\<close>

definition LttBlockIterator_default :: LttBlockIterator where
  "LttBlockIterator_default = \<lparr>m_tupleLength = 0, m_tupleAddress = 0\<rparr>"

definition LttBlockIterator_schema :: "TupleSchema \<Rightarrow> address \<Rightarrow> LttBlockIterator" where
  "LttBlockIterator_schema schema storage =
     \<lparr>m_tupleLength = tupleLength schema + TUPLE_HEADER_SIZE, m_tupleAddress = storage\<rparr>"

definition LttBlockIterator_length :: "int \<Rightarrow> address \<Rightarrow> LttBlockIterator" where
  "LttBlockIterator_length len storage = \<lparr>m_tupleLength = len, m_tupleAddress = storage\<rparr>"

text \<open>\<^verbatim>\<open>operator==\<close> and \<^verbatim>\<open>operator!=\<close> compare the addresses only.\<close>

definition iter_eq :: "LttBlockIterator \<Rightarrow> LttBlockIterator \<Rightarrow> bool" where
  "iter_eq this that = (m_tupleAddress this = m_tupleAddress that)"

definition iter_neq :: "LttBlockIterator \<Rightarrow> LttBlockIterator \<Rightarrow> bool" where
  "iter_neq this that = (m_tupleAddress this \<noteq> m_tupleAddress that)"

text \<open>\<^verbatim>\<open>operator*\<close>: the reference to the raw tuple is the address it stands at.\<close>

definition iter_deref :: "LttBlockIterator \<Rightarrow> address" where
  "iter_deref this = m_tupleAddress this"

definition iter_inc :: "LttBlockIterator \<Rightarrow> LttBlockIterator" where
  "iter_inc this = this\<lparr>m_tupleAddress := m_tupleAddress this + m_tupleLength this\<rparr>"

definition iter_dec :: "LttBlockIterator \<Rightarrow> LttBlockIterator" where
  "iter_dec this = this\<lparr>m_tupleAddress := m_tupleAddress this - m_tupleLength this\<rparr>"

text \<open>\<^verbatim>\<open>operator+=\<close> and \<^verbatim>\<open>operator-=\<close>; binary \<^verbatim>\<open>+\<close> and \<^verbatim>\<open>-\<close> copy the
  iterator and apply them.\<close>

definition iter_add_assign :: "LttBlockIterator \<Rightarrow> int \<Rightarrow> LttBlockIterator" where
  "iter_add_assign this n = this\<lparr>m_tupleAddress := m_tupleAddress this + n * m_tupleLength this\<rparr>"

definition iter_sub_assign :: "LttBlockIterator \<Rightarrow> int \<Rightarrow> LttBlockIterator" where
  "iter_sub_assign this n = this\<lparr>m_tupleAddress := m_tupleAddress this - n * m_tupleLength this\<rparr>"

definition iter_plus :: "LttBlockIterator \<Rightarrow> int \<Rightarrow> LttBlockIterator" where
  "iter_plus this n = iter_add_assign this n"

definition iter_minus :: "LttBlockIterator \<Rightarrow> int \<Rightarrow> LttBlockIterator" where
  "iter_minus this n = iter_sub_assign this n"

text \<open>Integer division of the source language truncates towards zero.\<close>

definition trunc_div :: "int \<Rightarrow> int \<Rightarrow> int" where
  "trunc_div a b = sgn a * sgn b * (\<bar>a\<bar> div \<bar>b\<bar>)"

text \<open>\<^verbatim>\<open>operator-(const LttBlockIterator&)\<close>: the byte distance divided by the left
  operand's tuple length; a zero length is a division by zero.\<close>

definition iter_diff :: "LttBlockIterator \<Rightarrow> LttBlockIterator \<Rightarrow> error + int" where
  "iter_diff this that =
     (let ptrdiff = m_tupleAddress this - m_tupleAddress that
      in if m_tupleLength this = 0 then Inl DivisionByZero
         else Inr (trunc_div ptrdiff (m_tupleLength this)))"

definition iter_index :: "LttBlockIterator \<Rightarrow> int \<Rightarrow> address" where
  "iter_index this n = (let temp = iter_plus this n in iter_deref temp)"

definition iter_gt :: "LttBlockIterator \<Rightarrow> LttBlockIterator \<Rightarrow> bool" where
  "iter_gt this that = (m_tupleAddress this > m_tupleAddress that)"

definition iter_lt :: "LttBlockIterator \<Rightarrow> LttBlockIterator \<Rightarrow> bool" where
  "iter_lt this that = (m_tupleAddress this < m_tupleAddress that)"

definition iter_ge :: "LttBlockIterator \<Rightarrow> LttBlockIterator \<Rightarrow> bool" where
  "iter_ge this that = (m_tupleAddress this \<ge> m_tupleAddress that)"

definition iter_le :: "LttBlockIterator \<Rightarrow> LttBlockIterator \<Rightarrow> bool" where
  "iter_le this that = (m_tupleAddress this \<le> m_tupleAddress that)"

subsection \<open>Tuples in memory\<close>

text \<open>A \<^verbatim>\<open>TableTuple\<close> is a pointer to a stored tuple together with its schema;
  \<^verbatim>\<open>Tuple::toTableTuple\<close> wraps the address of the raw tuple.\<close>

record TableTuple =
  tt_data :: address
  tt_schema :: TupleSchema

definition toTableTuple :: "address \<Rightarrow> TupleSchema \<Rightarrow> TableTuple" where
  "toTableTuple this schema = \<lparr>tt_data = this, tt_schema = schema\<rparr>"

definition tt_address :: "TableTuple \<Rightarrow> address" where
  "tt_address t = tt_data t"

text \<open>Modelled from the spec: \<^verbatim>\<open>TableTuple::tupleLength\<close> is declared in
  \<^verbatim>\<open>common/tabletuple.h\<close>, which is not among the sources. A stored tuple is the
  status byte followed by the inline body, \<open>L + 1\<close> bytes, and the scratch tuple of
  the sorter is schema-sized.\<close>

definition tt_tupleLength :: "TableTuple \<Rightarrow> int" where
  "tt_tupleLength t = tupleLength (tt_schema t) + TUPLE_HEADER_SIZE"

text \<open>\<^verbatim>\<open>memcpy\<close>: the \<open>n\<close> bytes at \<open>src\<close> are read first and then written at
  \<open>dst\<close>.\<close>

definition memcpy :: "memory \<Rightarrow> address \<Rightarrow> address \<Rightarrow> int \<Rightarrow> memory" where
  "memcpy m dst src n = (\<lambda>a. if dst \<le> a \<and> a < dst + n then m (src + (a - dst)) else m a)"

text \<open>Writing a list of bytes at an address.\<close>

definition store_bytes :: "memory \<Rightarrow> address \<Rightarrow> byte list \<Rightarrow> memory" where
  "store_bytes m base bs =
     (\<lambda>a. if base \<le> a \<and> a < base + int (length bs) then bs ! nat (a - base) else m a)"

section \<open>The in-place block sorter\<close>

text \<open>
  \<^verbatim>\<open>LTTBlockSorter<Compare>\<close>: the schema, the scratch tuple (\<^verbatim>\<open>m_tempTuple\<close>, which
  points at the sorter's own \<^verbatim>\<open>m_tempStorage\<close>) and the comparator. A comparator
  receives two \<^verbatim>\<open>TableTuple\<close>s and reads them, and whatever their string refs point
  at, from memory; so it is a function of the memory and the two tuples.
\<close>

record LTTBlockSorter =
  srt_schema :: TupleSchema
  srt_tempTuple :: TableTuple
  srt_compare :: "memory \<Rightarrow> TableTuple \<Rightarrow> TableTuple \<Rightarrow> bool"

text \<open>The state a sort runs in: the memory, and two counters that record how often
  the comparator and \<^verbatim>\<open>swap\<close> have been called (the counters are not in the source;
  they make the number of calls a value of the model).\<close>

record SortState =
  mem :: memory
  compareCalls :: nat
  swapCalls :: nat

text \<open>One evaluation of
  \<^verbatim>\<open>m_compare(t0.toTableTuple(m_schema), t1.toTableTuple(m_schema))\<close>.\<close>

definition compare :: "LTTBlockSorter \<Rightarrow> SortState \<Rightarrow> address \<Rightarrow> address \<Rightarrow> bool \<times> SortState" where
  "compare srt st t0 t1 =
     (srt_compare srt (mem st) (toTableTuple t0 (srt_schema srt)) (toTableTuple t1 (srt_schema srt)),
      st\<lparr>compareCalls := compareCalls st + 1\<rparr>)"

definition swap :: "LTTBlockSorter \<Rightarrow> SortState \<Rightarrow> address \<Rightarrow> address \<Rightarrow> SortState" where
  "swap srt st t0 t1 =
     (let st0 = st\<lparr>swapCalls := swapCalls st + 1\<rparr> in
      if t0 \<noteq> t1 then
        let tupleLength = tt_tupleLength (srt_tempTuple srt);
            tempBuffer = tt_address (srt_tempTuple srt);
            buf0 = t0;
            buf1 = t1;
            m1 = memcpy (mem st0) tempBuffer buf0 tupleLength;
            m2 = memcpy m1 buf0 buf1 tupleLength;
            m3 = memcpy m2 buf1 tempBuffer tupleLength
        in st0\<lparr>mem := m3\<rparr>
      else st0)"

text \<open>\<^verbatim>\<open>insertionSort<N>\<close>: the inner \<^verbatim>\<open>while\<close> loop, the outer \<^verbatim>\<open>for\<close> loop and
  the function with its assertion.\<close>

function insertionSort_while :: "LTTBlockSorter \<Rightarrow> SortState \<Rightarrow> LttBlockIterator \<Rightarrow> int \<Rightarrow> SortState" where
  "insertionSort_while srt st beginIt j =
     (if j > 0 then
        (case compare srt st (iter_index beginIt j) (iter_index beginIt (j - 1)) of
           (c, st1) \<Rightarrow>
             if c then insertionSort_while srt
                         (swap srt st1 (iter_index beginIt (j - 1)) (iter_index beginIt j)) beginIt (j - 1)
             else st1)
      else st)"
  by pat_completeness auto
termination
  by (relation "measure (\<lambda>(srt, st, beginIt, j). nat j)") auto

function insertionSort_for :: "int \<Rightarrow> LTTBlockSorter \<Rightarrow> SortState \<Rightarrow> LttBlockIterator \<Rightarrow> int \<Rightarrow> SortState" where
  "insertionSort_for N srt st beginIt i =
     (if i < N then insertionSort_for N srt (insertionSort_while srt st beginIt i) beginIt (i + 1)
      else st)"
  by pat_completeness auto
termination
  by (relation "measure (\<lambda>(N, srt, st, beginIt, i). nat (N - i))") auto

definition insertionSort :: "int \<Rightarrow> LTTBlockSorter \<Rightarrow> SortState \<Rightarrow> LttBlockIterator \<Rightarrow> error + SortState" where
  "insertionSort N srt st beginIt =
     (if N > 1 then Inr (insertionSort_for N srt st beginIt 0) else Inl AssertionFailed)"

text \<open>The partition loop of \<^verbatim>\<open>sort\<close>:
  \<^verbatim>\<open>for (j = 0; j < numElems - 1; ++j)\<close>, with \<open>i\<close> the index of the last element
  found less than the pivot. It returns the state and the final \<open>i\<close>.\<close>

function partition_for :: "LTTBlockSorter \<Rightarrow> SortState \<Rightarrow> LttBlockIterator \<Rightarrow> LttBlockIterator
    \<Rightarrow> int \<Rightarrow> int \<Rightarrow> int \<Rightarrow> SortState \<times> int" where
  "partition_for srt st beginIt pivot numElems i j =
     (if j < numElems - 1 then
        (let it = iter_plus beginIt j in
         case compare srt st (iter_deref it) (iter_deref pivot) of
           (c, st1) \<Rightarrow>
             if c then partition_for srt (swap srt st1 (iter_deref it) (iter_index beginIt (i + 1)))
                         beginIt pivot numElems (i + 1) (j + 1)
             else partition_for srt st1 beginIt pivot numElems i (j + 1))
      else (st, i))"
  by pat_completeness auto
termination
  by (relation "measure (\<lambda>(srt, st, beginIt, pivot, numElems, i, j). nat (numElems - 1 - j))") auto

text \<open>Sequencing of two calls that may fail or may not return.\<close>

definition bind_result :: "('e + 'a) option \<Rightarrow> ('a \<Rightarrow> ('e + 'b) option) \<Rightarrow> ('e + 'b) option" where
  "bind_result r f = Option.bind r (\<lambda>x. case x of Inl e \<Rightarrow> Some (Inl e) | Inr a \<Rightarrow> f a)"

lemma bind_result_mono [partial_function_mono]:
  assumes mf: "mono_option B" and mg: "\<And>y. mono_option (\<lambda>f. C y f)"
  shows "mono_option (\<lambda>f. bind_result (B f) (\<lambda>y. C y f))"
  unfolding bind_result_def
proof (rule bind_mono [OF mf])
  fix y :: "'c + 'd"
  show "mono_option (\<lambda>f. case y of Inl e \<Rightarrow> Some (Inl e) | Inr a \<Rightarrow> C a f)"
    by (cases y) (simp_all add: mg option.const_mono)
qed

text \<open>
  \<^verbatim>\<open>LTTBlockSorter::sort\<close>. One round of the \<^verbatim>\<open>while (true)\<close> loop is one call: the
  recursive call of the source is the first call below, and the next round of the
  loop (with \<^verbatim>\<open>endIt = pivot\<close> or \<^verbatim>\<open>beginIt = pivot + 1\<close>) is the second. The
  result is \<open>None\<close> when the source does not return, \<open>Some (Inl e)\<close> when it stops
  with an error.
\<close>

partial_function (option) sorter_sort :: "LTTBlockSorter \<Rightarrow> SortState \<Rightarrow> LttBlockIterator \<Rightarrow> LttBlockIterator
    \<Rightarrow> (error + SortState) option" where
  "sorter_sort srt st beginIt endIt =
     (case iter_diff endIt beginIt of
        Inl e \<Rightarrow> Some (Inl e)
      | Inr numElems \<Rightarrow>
          if numElems = 0 \<or> numElems = 1 then Some (Inr st)
          else if numElems = 2 then Some (insertionSort 2 srt st beginIt)
          else if numElems = 3 then Some (insertionSort 3 srt st beginIt)
          else if numElems = 4 then Some (insertionSort 4 srt st beginIt)
          else
            (let pivot = iter_minus endIt 1 in
             case partition_for srt st beginIt pivot numElems (- 1) 0 of
               (st1, i0) \<Rightarrow>
                 let i = i0 + 1 in
                 case compare srt st1 (iter_deref pivot) (iter_index beginIt i) of
                   (c, st2) \<Rightarrow>
                     let st3 = (if c then swap srt st2 (iter_deref pivot) (iter_index beginIt i) else st2);
                         pivot = iter_plus beginIt i
                     in case iter_diff pivot beginIt of
                          Inl e \<Rightarrow> Some (Inl e)
                        | Inr sizeLeft \<Rightarrow>
                            (case iter_diff endIt (iter_plus pivot 1) of
                               Inl e \<Rightarrow> Some (Inl e)
                             | Inr sizeRight \<Rightarrow>
                                 if sizeLeft > sizeRight
                                 then bind_result (sorter_sort srt st3 (iter_plus pivot 1) endIt)
                                        (\<lambda>st4. sorter_sort srt st4 beginIt pivot)
                                 else bind_result (sorter_sort srt st3 beginIt pivot)
                                        (\<lambda>st4. sorter_sort srt st4 (iter_plus pivot 1) endIt))))"

declare insertionSort_while.simps [simp del]
declare insertionSort_for.simps [simp del]
declare partition_for.simps [simp del]

declare sorter_sort.simps [code]

section \<open>Blocks, tuples and rearrangements\<close>

text \<open>Modelled from the spec: \<^verbatim>\<open>begin()\<close> and \<^verbatim>\<open>end()\<close> are declared in the header
  and defined in \<^verbatim>\<open>LargeTempTableBlock.cpp\<close>, which is not among the sources. Tuples occupy
  \<open>[storage, tuple_insertion_point)\<close>, and \<open>end() - begin()\<close> is the number of tuples.\<close>

definition block_begin :: "LargeTempTableBlock \<Rightarrow> LttBlockIterator" where
  "block_begin blk = LttBlockIterator_schema (m_schema blk) (address_of blk)"

definition block_end :: "LargeTempTableBlock \<Rightarrow> LttBlockIterator" where
  "block_end blk = LttBlockIterator_schema (m_schema blk) (m_tupleInsertionPoint blk)"

text \<open>The invariants the spec lists for a resident block: the tuples fill
  \<open>[storage, tuple_insertion_point)\<close>, each \<open>L + 1\<close> bytes long, and the non-inlined
  objects fill \<open>[non_inlined_insertion_point, storage + BLOCK_SIZE)\<close> above them.\<close>

definition block_invariant :: "LargeTempTableBlock \<Rightarrow> bool" where
  "block_invariant blk \<longleftrightarrow>
     isResident blk \<and> 0 \<le> tupleLength (m_schema blk) \<and> 0 \<le> m_activeTupleCount blk \<and>
     m_tupleInsertionPoint blk =
       m_storage blk + m_activeTupleCount blk * (tupleLength (m_schema blk) + TUPLE_HEADER_SIZE) \<and>
     m_tupleInsertionPoint blk \<le> m_nonInlinedInsertionPoint blk \<and>
     m_nonInlinedInsertionPoint blk \<le> m_storage blk + BLOCK_SIZE_IN_BYTES"

text \<open>The constructor of the sorter: the scratch tuple is a tuple of the schema in
  storage of the sorter's own, at \<open>tempStorage\<close>.\<close>

definition LTTBlockSorter_new :: "TupleSchema \<Rightarrow> (memory \<Rightarrow> TableTuple \<Rightarrow> TableTuple \<Rightarrow> bool)
    \<Rightarrow> address \<Rightarrow> LTTBlockSorter" where
  "LTTBlockSorter_new schema cmp tempStorage =
     \<lparr>srt_schema = schema, srt_tempTuple = toTableTuple tempStorage schema, srt_compare = cmp\<rparr>"

text \<open>A sorter made for a block: it has the block's schema, and its scratch
  tuple lies outside the block's storage.\<close>

definition sorter_for :: "LTTBlockSorter \<Rightarrow> LargeTempTableBlock \<Rightarrow> bool" where
  "sorter_for srt blk \<longleftrightarrow>
     srt_schema srt = m_schema blk \<and> tt_schema (srt_tempTuple srt) = m_schema blk \<and>
     (tt_address (srt_tempTuple srt) + tt_tupleLength (srt_tempTuple srt) \<le> m_storage blk
      \<or> m_storage blk + BLOCK_SIZE_IN_BYTES \<le> tt_address (srt_tempTuple srt))"


text \<open>The raw bytes of a stored tuple, the tuple an iterator reaches at offset
  \<open>k\<close>, and the tuples at the offsets \<open>lo, \<dots>, hi - 1\<close> in order.\<close>

definition tupleBytes :: "memory \<Rightarrow> address \<Rightarrow> int \<Rightarrow> byte list" where
  "tupleBytes m a len = map (\<lambda>k. m (a + k)) [0..len - 1]"

definition tupleAt :: "memory \<Rightarrow> LttBlockIterator \<Rightarrow> int \<Rightarrow> byte list" where
  "tupleAt m it k = tupleBytes m (iter_index it k) (m_tupleLength it)"

definition tuplesOf :: "memory \<Rightarrow> LttBlockIterator \<Rightarrow> int \<Rightarrow> int \<Rightarrow> byte list list" where
  "tuplesOf m it lo hi = map (tupleAt m it) [lo..hi - 1]"

text \<open>The addresses of the tuples at offsets \<open>lo, \<dots>, hi - 1\<close>, and those of the
  scratch tuple.\<close>

definition in_tuples :: "LttBlockIterator \<Rightarrow> int \<Rightarrow> int \<Rightarrow> address \<Rightarrow> bool" where
  "in_tuples it lo hi x \<longleftrightarrow> iter_index it lo \<le> x \<and> x < iter_index it hi"

definition in_scratch :: "LTTBlockSorter \<Rightarrow> address \<Rightarrow> bool" where
  "in_scratch srt x \<longleftrightarrow>
     tt_address (srt_tempTuple srt) \<le> x \<and>
     x < tt_address (srt_tempTuple srt) + tt_tupleLength (srt_tempTuple srt)"

text \<open>The sorter fits a range of \<open>n\<close> tuples when the tuple length is positive and
  is that of the scratch tuple, and the scratch tuple lies outside the range.\<close>

definition sorter_fits :: "LTTBlockSorter \<Rightarrow> LttBlockIterator \<Rightarrow> int \<Rightarrow> bool" where
  "sorter_fits srt it n \<longleftrightarrow>
     0 < m_tupleLength it \<and> tt_tupleLength (srt_tempTuple srt) = m_tupleLength it \<and> 0 \<le> n \<and>
     (tt_address (srt_tempTuple srt) + m_tupleLength it \<le> m_tupleAddress it
      \<or> m_tupleAddress it + n * m_tupleLength it \<le> tt_address (srt_tempTuple srt))"

text \<open>Memory \<open>m'\<close> is a rearrangement of \<open>m\<close> on the tuples
  \<open>lo, \<dots>, hi - 1\<close>: it holds the same multiset of tuples there, and differs from
  \<open>m\<close> at most on these tuples and on the scratch tuple.\<close>

definition rearranged :: "LTTBlockSorter \<Rightarrow> LttBlockIterator \<Rightarrow> int \<Rightarrow> int \<Rightarrow> memory \<Rightarrow> memory \<Rightarrow> bool" where
  "rearranged srt it lo hi m m' \<longleftrightarrow>
     (\<forall>x. \<not> in_tuples it lo hi x \<and> \<not> in_scratch srt x \<longrightarrow> m' x = m x) \<and>
     mset (tuplesOf m' it lo hi) = mset (tuplesOf m it lo hi)"

text \<open>A strict weak ordering: irreflexive, transitive, and with a transitive
  equivalence (neither of two elements before the other).\<close>

definition strict_weak_order :: "('a \<Rightarrow> 'a \<Rightarrow> bool) \<Rightarrow> bool" where
  "strict_weak_order lt \<longleftrightarrow>
     (\<forall>x. \<not> lt x x) \<and>
     (\<forall>x y z. lt x y \<and> lt y z \<longrightarrow> lt x z) \<and>
     (\<forall>x y z. \<not> lt x y \<and> \<not> lt y x \<and> \<not> lt y z \<and> \<not> lt z y \<longrightarrow> \<not> lt x z \<and> \<not> lt z x)"

text \<open>The comparator of the sorter decides by \<open>lt\<close> on the raw tuples: in every
  memory that is a rearrangement of the tuples of the range, comparing two tuples of the
  range is \<open>lt\<close> on their bytes. A comparator that follows string refs qualifies, since
  the objects they point at lie outside the tuples and the scratch tuple.\<close>

definition compares_as :: "(byte list \<Rightarrow> byte list \<Rightarrow> bool) \<Rightarrow> LTTBlockSorter \<Rightarrow> LttBlockIterator
    \<Rightarrow> int \<Rightarrow> memory \<Rightarrow> bool" where
  "compares_as lt srt it n m0 \<longleftrightarrow>
     (\<forall>m i j. rearranged srt it 0 n m0 m \<and> 0 \<le> i \<and> i < n \<and> 0 \<le> j \<and> j < n \<longrightarrow>
        srt_compare srt m (toTableTuple (iter_index it i) (srt_schema srt))
                          (toTableTuple (iter_index it j) (srt_schema srt))
          = lt (tupleAt m it i) (tupleAt m it j))"

text \<open>No later tuple of the range is before an earlier one.\<close>

definition ordered :: "(byte list \<Rightarrow> byte list \<Rightarrow> bool) \<Rightarrow> memory \<Rightarrow> LttBlockIterator \<Rightarrow> int \<Rightarrow> int \<Rightarrow> bool" where
  "ordered lt m it lo hi \<longleftrightarrow>
     (\<forall>k k'. lo \<le> k \<and> k < k' \<and> k' < hi \<longrightarrow> \<not> lt (tupleAt m it k') (tupleAt m it k))"

section \<open>Inserting, releasing and reloading\<close>

text \<open>
  The functions of this section are declared in \<^verbatim>\<open>LargeTempTableBlock.h\<close> and defined in
  \<^verbatim>\<open>LargeTempTableBlock.cpp\<close>, which is not among the sources; they are modelled from
  the spec.
\<close>

text \<open>Modelled from the spec: the tuple value codec is not among the sources. A column
  of variable length stores, inline, a fixed-size reference (a string ref) to an object in
  the non-inlined region. A string ref is taken to be the address of the object, eight
  bytes, least significant byte first.\<close>

definition STRING_REF_SIZE :: int where
  "STRING_REF_SIZE = 8"

fun encode_le :: "nat \<Rightarrow> int \<Rightarrow> byte list" where
  "encode_le 0 v = []"
| "encode_le (Suc n) v = word_of_int v # encode_le n (v div 256)"

fun decode_le :: "byte list \<Rightarrow> int" where
  "decode_le [] = 0"
| "decode_le (b # bs) = uint b + 256 * decode_le bs"

definition readRef :: "memory \<Rightarrow> address \<Rightarrow> address" where
  "readRef m a = decode_le (tupleBytes m a STRING_REF_SIZE)"

definition writeRef :: "memory \<Rightarrow> address \<Rightarrow> address \<Rightarrow> memory" where
  "writeRef m a v = store_bytes m a (encode_le (nat STRING_REF_SIZE) v)"

text \<open>Modelled from the spec: \<^verbatim>\<open>allocate\<close> returns a pointer into the non-inlined
  region, moving \<open>non_inlined_insertion_point\<close> down by the size.\<close>

definition allocate :: "LargeTempTableBlock \<Rightarrow> int \<Rightarrow> address \<times> LargeTempTableBlock" where
  "allocate blk n =
     (m_nonInlinedInsertionPoint blk - n,
      blk\<lparr>m_nonInlinedInsertionPoint := m_nonInlinedInsertionPoint blk - n\<rparr>)"

text \<open>Modelled from the spec: the total size of the non-inlined objects of a source
  tuple. The size of one object is the value codec's to tell; it is the parameter
  \<open>objectSize\<close>.\<close>

definition nonInlinedSize :: "(memory \<Rightarrow> address \<Rightarrow> int) \<Rightarrow> memory \<Rightarrow> TableTuple \<Rightarrow> int" where
  "nonInlinedSize objectSize m source =
     sum_list (map (\<lambda>off. objectSize m (readRef m (tt_address source + off)))
                   (stringRefOffsets (tt_schema source)))"

text \<open>Modelled from the spec: step 2 of the layout algorithm of \<^verbatim>\<open>insertTuple\<close>. For
  each non-inlined column of the source tuple, its size is subtracted from
  \<open>non_inlined_insertion_point\<close>, the object is copied there and its new address is
  recorded.\<close>

fun copyNonInlinedObjects :: "(memory \<Rightarrow> address \<Rightarrow> int) \<Rightarrow> memory \<Rightarrow> LargeTempTableBlock \<Rightarrow> address
    \<Rightarrow> int list \<Rightarrow> memory \<times> LargeTempTableBlock \<times> (int \<times> address) list" where
  "copyNonInlinedObjects objectSize m blk src [] = (m, blk, [])"
| "copyNonInlinedObjects objectSize m blk src (off # offs) =
     (let obj = readRef m (src + off);
          v = objectSize m obj;
          (p, blk1) = allocate blk v;
          m1 = memcpy m p obj v;
          (m2, blk2, rest) = copyNonInlinedObjects objectSize m1 blk1 src offs
      in (m2, blk2, (off, p) # rest))"

text \<open>Modelled from the spec: \<^verbatim>\<open>insertTuple\<close>. It rejects the tuple when the gap is
  smaller than \<open>(L + 1) + V\<close>; otherwise it copies the objects, writes the status byte
  and the inline body at \<open>tuple_insertion_point\<close>, stores the new address in every
  string ref, advances \<open>tuple_insertion_point\<close> by \<open>L + 1\<close> and counts the tuple. A
  block that is not resident, or a tuple of another schema, fails an assertion.\<close>

definition insertTuple :: "(memory \<Rightarrow> address \<Rightarrow> int) \<Rightarrow> memory \<Rightarrow> LargeTempTableBlock \<Rightarrow> TableTuple
    \<Rightarrow> error + (bool \<times> memory \<times> LargeTempTableBlock)" where
  "insertTuple objectSize m blk source =
     (if \<not> isResident blk \<or> tt_schema source \<noteq> m_schema blk then Inl AssertionFailed
      else
        let len = tupleLength (m_schema blk) + TUPLE_HEADER_SIZE;
            V = nonInlinedSize objectSize m source
        in if m_nonInlinedInsertionPoint blk - m_tupleInsertionPoint blk < len + V
           then Inr (False, m, blk)
           else
             (case copyNonInlinedObjects objectSize m blk (tt_address source)
                     (stringRefOffsets (m_schema blk)) of
                (m1, blk1, refs) \<Rightarrow>
                  let m2 = memcpy m1 (m_tupleInsertionPoint blk1) (tt_address source) len;
                      m3 = fold (\<lambda>(off, p) mm. writeRef mm (m_tupleInsertionPoint blk1 + off) p) refs m2;
                      blk2 = blk1\<lparr>m_tupleInsertionPoint := m_tupleInsertionPoint blk1 + len,
                                  m_activeTupleCount := m_activeTupleCount blk1 + 1\<rparr>
                  in Inr (True, m3, blk2)))"

text \<open>Modelled from the spec: \<^verbatim>\<open>releaseData\<close> hands the storage back, marks the block
  stored and leaves it without storage; it must be called on an unpinned block.\<close>

definition releaseData :: "LargeTempTableBlock \<Rightarrow> error + (address \<times> LargeTempTableBlock)" where
  "releaseData blk =
     (if m_isPinned blk then Inl AssertionFailed
      else Inr (m_storage blk, blk\<lparr>m_storage := 0, m_isStored := True\<rparr>))"

text \<open>Modelled from the spec: the relocation walk (\<^verbatim>\<open>relocateNonInlinedFields\<close>, private
  in the header). The difference between the address of the storage and the address it
  had is added to every string ref of every tuple.\<close>

definition relocateField :: "memory \<Rightarrow> address \<Rightarrow> int \<Rightarrow> int \<Rightarrow> memory" where
  "relocateField m t delta off = writeRef m (t + off) (readRef m (t + off) + delta)"

definition relocateTuple :: "memory \<Rightarrow> address \<Rightarrow> int list \<Rightarrow> int \<Rightarrow> memory" where
  "relocateTuple m t offs delta = fold (\<lambda>off mm. relocateField mm t delta off) offs m"

definition relocateNonInlinedFields :: "memory \<Rightarrow> LargeTempTableBlock \<Rightarrow> address \<Rightarrow> memory" where
  "relocateNonInlinedFields m blk origAddress =
     (let delta = m_storage blk - origAddress
      in fold (\<lambda>i mm. relocateTuple mm (iter_index (block_begin blk) i)
                        (stringRefOffsets (m_schema blk)) delta)
           [0..m_activeTupleCount blk - 1] m)"

text \<open>Modelled from the spec: \<^verbatim>\<open>setData\<close> installs the buffer as the storage and
  relocates the string refs. The two insertion points are pointers into the storage in
  the header, so they move with it: the tuples occupy
  \<open>[storage, tuple_insertion_point)\<close> in the reloaded block as before.\<close>

definition setData :: "address \<Rightarrow> address \<Rightarrow> memory \<Rightarrow> LargeTempTableBlock \<Rightarrow> memory \<times> LargeTempTableBlock" where
  "setData origAddress storage m blk =
     (let delta = storage - origAddress;
          blk1 = blk\<lparr>m_storage := storage,
                     m_tupleInsertionPoint := m_tupleInsertionPoint blk + delta,
                     m_nonInlinedInsertionPoint := m_nonInlinedInsertionPoint blk + delta\<rparr>
      in (relocateNonInlinedFields m blk1 origAddress, blk1))"

text \<open>The string-ref fields of a schema lie within the tuple and do not overlap.\<close>

definition refs_fit :: "TupleSchema \<Rightarrow> bool" where
  "refs_fit schema \<longleftrightarrow>
     distinct (stringRefOffsets schema) \<and>
     list_all (\<lambda>off. 0 \<le> off \<and> off + STRING_REF_SIZE \<le> tupleLength schema + TUPLE_HEADER_SIZE)
       (stringRefOffsets schema) \<and>
     list_all (\<lambda>off. list_all (\<lambda>off'. off = off' \<or> off + STRING_REF_SIZE \<le> off' \<or> off' + STRING_REF_SIZE \<le> off)
                 (stringRefOffsets schema))
       (stringRefOffsets schema)"

text \<open>An address lies in a string-ref field of one of the tuples of the block.\<close>

definition in_ref_field :: "LargeTempTableBlock \<Rightarrow> address \<Rightarrow> bool" where
  "in_ref_field blk x \<longleftrightarrow>
     m_storage blk \<le> x \<and> x < m_tupleInsertionPoint blk \<and>
     list_ex (\<lambda>off. off \<le> (x - m_storage blk) mod (tupleLength (m_schema blk) + TUPLE_HEADER_SIZE)
                  \<and> (x - m_storage blk) mod (tupleLength (m_schema blk) + TUPLE_HEADER_SIZE) < off + STRING_REF_SIZE)
       (stringRefOffsets (m_schema blk))"

text \<open>Every string ref of every tuple of the block points into the non-inlined region
  of the block.\<close>

definition refs_in_block :: "memory \<Rightarrow> LargeTempTableBlock \<Rightarrow> bool" where
  "refs_in_block m blk \<longleftrightarrow>
     list_all (\<lambda>i. list_all (\<lambda>off.
          m_nonInlinedInsertionPoint blk \<le> readRef m (iter_index (block_begin blk) i + off) \<and>
          readRef m (iter_index (block_begin blk) i + off) < m_storage blk + BLOCK_SIZE_IN_BYTES)
        (stringRefOffsets (m_schema blk)))
       [0..m_activeTupleCount blk - 1]"

text \<open>The relocation walk over a list of tuple indices.\<close>

definition walk :: "memory \<Rightarrow> LttBlockIterator \<Rightarrow> int list \<Rightarrow> int \<Rightarrow> int list \<Rightarrow> memory" where
  "walk m it offs delta idxs = fold (\<lambda>i mm. relocateTuple mm (iter_index it i) offs delta) idxs m"

section \<open>Sorting by repacking into a fresh block\<close>

text \<open>
  The second way to sort a block, \<^verbatim>\<open>sortTuplesStdSort\<close> of the tests (lines 824 to 837):
  a vector of tuple handles is built from the input block and sorted with \<^verbatim>\<open>std::sort\<close>,
  the non-inlined region of the input block is copied into the output block, and the
  tuples are inserted into the output block in the order of the vector.
\<close>

text \<open>Modelled from the spec: \<^verbatim>\<open>copyNonInlinedData\<close> is declared in the header and defined
  in \<^verbatim>\<open>LargeTempTableBlock.cpp\<close>. It copies the non-inlined region of the source block
  verbatim to the corresponding high bytes of this block, whose own non-inlined region must
  be empty.\<close>

definition copyNonInlinedData :: "memory \<Rightarrow> LargeTempTableBlock \<Rightarrow> LargeTempTableBlock
    \<Rightarrow> error + (memory \<times> LargeTempTableBlock)" where
  "copyNonInlinedData m blk srcBlock =
     (if m_nonInlinedInsertionPoint blk \<noteq> m_storage blk + BLOCK_SIZE_IN_BYTES then Inl AssertionFailed
      else
        let n = m_storage srcBlock + BLOCK_SIZE_IN_BYTES - m_nonInlinedInsertionPoint srcBlock;
            dst = m_storage blk + BLOCK_SIZE_IN_BYTES - n
        in Inr (memcpy m dst (m_nonInlinedInsertionPoint srcBlock) n,
                blk\<lparr>m_nonInlinedInsertionPoint := dst\<rparr>))"

text \<open>Modelled from the spec: \<^verbatim>\<open>insertTupleRelocateNonInlinedFields\<close> is declared in the
  header and defined in \<^verbatim>\<open>LargeTempTableBlock.cpp\<close>. It copies the status byte and the
  inline body only, and rewrites each string ref as if the non-inlined region of the source
  had been copied at the same offsets: an object at \<open>a\<close> in the buffer at \<open>origAddress\<close>
  is at \<open>a - origAddress\<close> from the storage of this block. It returns false when the gap
  is smaller than \<open>L + 1\<close>.\<close>

definition insertTupleRelocateNonInlinedFields :: "memory \<Rightarrow> LargeTempTableBlock \<Rightarrow> TableTuple \<Rightarrow> address
    \<Rightarrow> error + (bool \<times> memory \<times> LargeTempTableBlock)" where
  "insertTupleRelocateNonInlinedFields m blk source origAddress =
     (if \<not> isResident blk \<or> tt_schema source \<noteq> m_schema blk then Inl AssertionFailed
      else
        let len = tupleLength (m_schema blk) + TUPLE_HEADER_SIZE
        in if m_nonInlinedInsertionPoint blk - m_tupleInsertionPoint blk < len
           then Inr (False, m, blk)
           else
             let m1 = memcpy m (m_tupleInsertionPoint blk) (tt_address source) len;
                 m2 = relocateTuple m1 (m_tupleInsertionPoint blk) (stringRefOffsets (m_schema blk))
                        (m_storage blk - origAddress);
                 blk1 = blk\<lparr>m_tupleInsertionPoint := m_tupleInsertionPoint blk + len,
                            m_activeTupleCount := m_activeTupleCount blk + 1\<rparr>
             in Inr (True, m2, blk1))"

text \<open>The vector of handles the first loop builds: the tuples of the block in the order
  of its iterator.\<close>

definition tupleHandles :: "LargeTempTableBlock \<Rightarrow> TableTuple list" where
  "tupleHandles blk =
     map (\<lambda>i. toTableTuple (iter_index (block_begin blk) i) (m_schema blk))
       [0..m_activeTupleCount blk - 1]"

text \<open>\<^verbatim>\<open>std::sort\<close> belongs to the standard library of the compiler. What the C++ standard
  promises of it is all that is used: the vector it leaves is a permutation of the vector
  it got, and no element is, by the comparator, before an element that precedes it. The
  order of elements that compare equivalent is not determined.\<close>

definition std_sort_result :: "(memory \<Rightarrow> TableTuple \<Rightarrow> TableTuple \<Rightarrow> bool) \<Rightarrow> memory
    \<Rightarrow> TableTuple list \<Rightarrow> TableTuple list \<Rightarrow> bool" where
  "std_sort_result cmp m v v' \<longleftrightarrow> mset v' = mset v \<and> sorted_wrt (\<lambda>a b. \<not> cmp m b a) v'"

text \<open>The second loop, over the sorted vector; a failed insertion fails the assertion of
  the test.\<close>

fun reinsert :: "memory \<Rightarrow> LargeTempTableBlock \<Rightarrow> address \<Rightarrow> TableTuple list
    \<Rightarrow> error + (memory \<times> LargeTempTableBlock)" where
  "reinsert m blk origAddress [] = Inr (m, blk)"
| "reinsert m blk origAddress (t # ts) =
     (case insertTupleRelocateNonInlinedFields m blk t origAddress of
        Inl e \<Rightarrow> Inl e
      | Inr (success, m1, blk1) \<Rightarrow>
          if success then reinsert m1 blk1 origAddress ts else Inl AssertionFailed)"

definition sortTuplesStdSort :: "memory \<Rightarrow> LargeTempTableBlock \<Rightarrow> LargeTempTableBlock \<Rightarrow> TableTuple list
    \<Rightarrow> error + (memory \<times> LargeTempTableBlock)" where
  "sortTuplesStdSort m blockInput blockOutput ttVector =
     (case copyNonInlinedData m blockOutput blockInput of
        Inl e \<Rightarrow> Inl e
      | Inr (m1, out1) \<Rightarrow> reinsert m1 out1 (address_of blockInput) ttVector)"

text \<open>An offset within a tuple lies in one of its string-ref fields; and the tuple at
  \<open>a'\<close> in \<open>m'\<close> is the tuple at \<open>a\<close> in \<open>m\<close> moved by \<open>delta\<close>: the same
  bytes outside the string-ref fields, and string refs that are \<open>delta\<close> higher.\<close>

definition in_field :: "TupleSchema \<Rightarrow> int \<Rightarrow> bool" where
  "in_field schema d \<longleftrightarrow>
     list_ex (\<lambda>off. off \<le> d \<and> d < off + STRING_REF_SIZE) (stringRefOffsets schema)"

definition same_tuple_relocated :: "TupleSchema \<Rightarrow> int \<Rightarrow> memory \<Rightarrow> address \<Rightarrow> memory \<Rightarrow> address \<Rightarrow> bool" where
  "same_tuple_relocated schema delta m a m' a' \<longleftrightarrow>
     list_all (\<lambda>d. in_field schema d \<or> m' (a' + d) = m (a + d))
       [0..tupleLength schema + TUPLE_HEADER_SIZE - 1] \<and>
     list_all (\<lambda>off. readRef m' (a' + off) = readRef m (a + off) + delta) (stringRefOffsets schema)"

text \<open>Two tuples of the range of which neither is before the other by \<open>lt\<close> have the
  same bytes.\<close>

definition ties_identical :: "(byte list \<Rightarrow> byte list \<Rightarrow> bool) \<Rightarrow> memory \<Rightarrow> LttBlockIterator \<Rightarrow> int \<Rightarrow> bool" where
  "ties_identical lt m it n \<longleftrightarrow>
     list_all (\<lambda>i. list_all (\<lambda>j. lt (tupleAt m it i) (tupleAt m it j) \<or> lt (tupleAt m it j) (tupleAt m it i)
                               \<or> tupleAt m it i = tupleAt m it j) [0..n - 1]) [0..n - 1]"

section \<open>An example block\<close>

text \<open>A block of five tuples of two bytes each (the status byte and a one-byte body)
  at address 4096, with four bytes of non-inlined data at the top of its storage; a
  comparator that orders tuples by their body byte; and a sorter whose scratch tuple is
  at address 16.\<close>

definition example_schema :: TupleSchema where
  "example_schema = \<lparr>tupleLength = 1, stringRefOffsets = []\<rparr>"

definition example_block :: LargeTempTableBlock where
  "example_block = \<lparr>m_id = 0, m_schema = example_schema, m_storage = 4096,
     m_tupleInsertionPoint = 4106, m_nonInlinedInsertionPoint = 8392700,
     m_isPinned = True, m_isStored = False, m_activeTupleCount = 5\<rparr>"

definition example_memory :: memory where
  "example_memory =
     store_bytes (store_bytes (\<lambda>a. 0) 4096 [1, 3, 1, 1, 1, 4, 1, 1, 1, 2]) 8392700 [9, 8, 7, 6]"

definition first_byte_less :: "memory \<Rightarrow> TableTuple \<Rightarrow> TableTuple \<Rightarrow> bool" where
  "first_byte_less m t0 t1 = (m (tt_data t0 + 1) < m (tt_data t1 + 1))"

definition example_sorter :: LTTBlockSorter where
  "example_sorter = LTTBlockSorter_new example_schema first_byte_less 16"

definition example_state :: SortState where
  "example_state = \<lparr>mem = example_memory, compareCalls = 0, swapCalls = 0\<rparr>"

text \<open>A block that has room for no further tuple, a source tuple, and a block of two
  tuples with one string ref each, whose objects are the two bytes \<open>ab\<close> and
  \<open>cd\<close>; the memory after that block has been written out and read back sixteen
  megabytes higher.\<close>

definition example_full_block :: LargeTempTableBlock where
  "example_full_block = example_block\<lparr>m_nonInlinedInsertionPoint := 4107\<rparr>"

definition example_source :: TableTuple where
  "example_source = toTableTuple 32 example_schema"

definition example_ref_schema :: TupleSchema where
  "example_ref_schema = \<lparr>tupleLength = 9, stringRefOffsets = [2]\<rparr>"

definition example_ref_block :: LargeTempTableBlock where
  "example_ref_block = \<lparr>m_id = 1, m_schema = example_ref_schema, m_storage = 4096,
     m_tupleInsertionPoint = 4116, m_nonInlinedInsertionPoint = 8392700,
     m_isPinned = False, m_isStored = False, m_activeTupleCount = 2\<rparr>"

definition example_ref_memory :: memory where
  "example_ref_memory =
     store_bytes
       (store_bytes (\<lambda>a. 0) 4096
          ([1, 5] @ encode_le 8 8392700 @ [1, 3] @ encode_le 8 8392702))
       8392700 [97, 98, 99, 100]"

definition example_loaded_memory :: memory where
  "example_loaded_memory = (\<lambda>a. example_ref_memory (a - 16773120))"

text \<open>A sorter for the block with string refs, a fresh output block sixteen megabytes
  higher, and the handles of the two tuples in the order of their body bytes.\<close>

definition example_ref_sorter :: LTTBlockSorter where
  "example_ref_sorter = LTTBlockSorter_new example_ref_schema first_byte_less 16"

definition example_ref_output :: LargeTempTableBlock where
  "example_ref_output = \<lparr>m_id = 2, m_schema = example_ref_schema, m_storage = 16777216,
     m_tupleInsertionPoint = 16777216, m_nonInlinedInsertionPoint = 25165824,
     m_isPinned = True, m_isStored = False, m_activeTupleCount = 0\<rparr>"

definition example_ref_sorted :: "TableTuple list" where
  "example_ref_sorted = map (\<lambda>a. toTableTuple a example_ref_schema) [4106, 4096]"

text \<open>A block of five tuples of three bytes each (the status byte, a key byte and a
  payload byte), three of which have the key 2; a fresh output block; a sorter that
  compares the key bytes; and the handles of the five tuples ordered by key, those of equal
  key in the order of the block.\<close>

definition example_tie_schema :: TupleSchema where
  "example_tie_schema = \<lparr>tupleLength = 2, stringRefOffsets = []\<rparr>"

definition example_tie_block :: LargeTempTableBlock where
  "example_tie_block = \<lparr>m_id = 0, m_schema = example_tie_schema, m_storage = 4096,
     m_tupleInsertionPoint = 4111, m_nonInlinedInsertionPoint = 8392704,
     m_isPinned = True, m_isStored = False, m_activeTupleCount = 5\<rparr>"

definition example_tie_output :: LargeTempTableBlock where
  "example_tie_output = \<lparr>m_id = 1, m_schema = example_tie_schema, m_storage = 16777216,
     m_tupleInsertionPoint = 16777216, m_nonInlinedInsertionPoint = 25165824,
     m_isPinned = True, m_isStored = False, m_activeTupleCount = 0\<rparr>"

definition example_tie_memory :: memory where
  "example_tie_memory =
     store_bytes (\<lambda>a. 0) 4096 [1, 2, 10,  1, 2, 11,  1, 1, 12,  1, 3, 13,  1, 2, 14]"

definition example_tie_sorter :: LTTBlockSorter where
  "example_tie_sorter = LTTBlockSorter_new example_tie_schema first_byte_less 16"

definition example_tie_sorted :: "TableTuple list" where
  "example_tie_sorted = map (\<lambda>a. toTableTuple a example_tie_schema) [4102, 4096, 4099, 4108, 4105]"

section \<open>Iterator arithmetic\<close>

lemma trunc_div_mult_self: "l \<noteq> 0 \<Longrightarrow> trunc_div (k * l) l = k"
proof -
  assume l: "l \<noteq> 0"
  have "\<bar>k * l\<bar> div \<bar>l\<bar> = \<bar>k\<bar>"
    using l by (simp add: abs_mult)
  then have "trunc_div (k * l) l = sgn k * (sgn l * sgn l) * \<bar>k\<bar>"
    by (simp add: trunc_div_def sgn_mult mult_ac)
  also have "sgn l * sgn l = 1"
    using l by (simp add: sgn_if)
  finally show ?thesis
    by (simp add: mult_sgn_abs)
qed

lemma iter_diff_plus:
  "m_tupleLength it \<noteq> 0 \<Longrightarrow> iter_diff (iter_plus it j) (iter_plus it i) = Inr (j - i)"
proof -
  assume l: "m_tupleLength it \<noteq> 0"
  have "j * m_tupleLength it - i * m_tupleLength it = (j - i) * m_tupleLength it"
    by (simp add: algebra_simps)
  then show ?thesis
    using l trunc_div_mult_self [of "m_tupleLength it" "j - i"]
    by (simp add: iter_diff_def iter_plus_def iter_add_assign_def)
qed

text \<open>
  Claim C7. \<^verbatim>\<open>pin\<close> on a block that is already pinned and \<^verbatim>\<open>unpin\<close> on a block that
  is not pinned fail the assertion; otherwise \<^verbatim>\<open>pin\<close> sets the pinned flag and
  \<^verbatim>\<open>unpin\<close> clears it, and nothing else of the block changes.
\<close>

theorem pin_unpin_assert:
  "pin blk = (if isPinned blk then Inl AssertionFailed else Inr (blk\<lparr>m_isPinned := True\<rparr>))
   \<and> unpin blk = (if isPinned blk then Inr (blk\<lparr>m_isPinned := False\<rparr>) else Inl AssertionFailed)"
  by (simp add: pin_def unpin_def isPinned_def)

theorem pin_unpin_assert_witness:
  "pin \<lparr>m_id = 0, m_schema = \<lparr>tupleLength = 8, stringRefOffsets = []\<rparr>, m_storage = 4096,
        m_tupleInsertionPoint = 4096, m_nonInlinedInsertionPoint = 8392704,
        m_isPinned = True, m_isStored = False, m_activeTupleCount = 0\<rparr> = Inl AssertionFailed
   \<and> unpin \<lparr>m_id = 0, m_schema = \<lparr>tupleLength = 8, stringRefOffsets = []\<rparr>, m_storage = 4096,
        m_tupleInsertionPoint = 4096, m_nonInlinedInsertionPoint = 8392704,
        m_isPinned = False, m_isStored = False, m_activeTupleCount = 0\<rparr> = Inl AssertionFailed"
  using pin_unpin_assert
    [of "\<lparr>m_id = 0, m_schema = \<lparr>tupleLength = 8, stringRefOffsets = []\<rparr>, m_storage = 4096,
        m_tupleInsertionPoint = 4096, m_nonInlinedInsertionPoint = 8392704,
        m_isPinned = True, m_isStored = False, m_activeTupleCount = 0\<rparr>"]
    pin_unpin_assert
    [of "\<lparr>m_id = 0, m_schema = \<lparr>tupleLength = 8, stringRefOffsets = []\<rparr>, m_storage = 4096,
        m_tupleInsertionPoint = 4096, m_nonInlinedInsertionPoint = 8392704,
        m_isPinned = False, m_isStored = False, m_activeTupleCount = 0\<rparr>"]
  by (simp add: isPinned_def)

text \<open>
  Claim C6. The random-access laws of the block iterator. For every iterator and
  every offset \<open>n\<close>, \<open>(it + n) - n\<close> is \<open>it\<close> again (as a value, hence also under
  \<^verbatim>\<open>operator==\<close>) and \<open>it[n]\<close> is the tuple \<open>*(it + n)\<close>. For two iterators of
  one block, that is, two iterators reached from the same iterator of positive tuple
  length by offsets \<open>i\<close> and \<open>j\<close>, \<open>a < b\<close> holds exactly when the difference
  \<open>b - a\<close> (byte distance divided by the tuple length) is defined and positive.
\<close>

theorem iterator_random_access_laws:
  "iter_minus (iter_plus it n) n = it
   \<and> iter_eq (iter_minus (iter_plus it n) n) it
   \<and> iter_index it n = iter_deref (iter_plus it n)
   \<and> (0 < m_tupleLength it \<longrightarrow>
        (iter_lt (iter_plus it i) (iter_plus it j)
           \<longleftrightarrow> (\<exists>d. iter_diff (iter_plus it j) (iter_plus it i) = Inr d \<and> 0 < d)))"
proof -
  have there_and_back: "iter_minus (iter_plus it n) n = it"
    by (simp add: iter_minus_def iter_plus_def iter_sub_assign_def iter_add_assign_def)
  have idx: "iter_index it n = iter_deref (iter_plus it n)"
    by (simp add: iter_index_def)
  have ord: "iter_lt (iter_plus it i) (iter_plus it j)
      \<longleftrightarrow> (\<exists>d. iter_diff (iter_plus it j) (iter_plus it i) = Inr d \<and> 0 < d)"
    if l: "0 < m_tupleLength it"
  proof -
    have "iter_lt (iter_plus it i) (iter_plus it j) \<longleftrightarrow> i < j"
      using l by (simp add: iter_lt_def iter_plus_def iter_add_assign_def)
    moreover have "iter_diff (iter_plus it j) (iter_plus it i) = Inr (j - i)"
      using l by (simp add: iter_diff_plus)
    ultimately show ?thesis by auto
  qed
  from there_and_back idx ord show ?thesis
    by (simp add: iter_eq_def)
qed

theorem iterator_random_access_laws_witness:
  "iter_minus (iter_plus (LttBlockIterator_length 65 4096) 3) 3 = LttBlockIterator_length 65 4096
   \<and> iter_index (LttBlockIterator_length 65 4096) 3 = 4291
   \<and> (0::int) < 65
   \<and> iter_lt (iter_plus (LttBlockIterator_length 65 4096) 1) (iter_plus (LttBlockIterator_length 65 4096) 3)
   \<and> iter_diff (iter_plus (LttBlockIterator_length 65 4096) 3) (iter_plus (LttBlockIterator_length 65 4096) 1) = Inr 2"
  using iterator_random_access_laws [of "LttBlockIterator_length 65 4096" 3 1 3]
  by (simp add: LttBlockIterator_length_def iter_plus_def iter_add_assign_def iter_deref_def
      iter_lt_def iter_diff_def trunc_div_def)

text \<open>
  Claim C10. The difference of two iterators divides the byte distance by the tuple
  length of the left operand. With a left operand of tuple length zero, as every
  default-constructed iterator has, it is a division by zero. When both operands
  were reached from one iterator of positive tuple length, by offsets \<open>i\<close> and
  \<open>j\<close>, the difference is defined and is the distance \<open>j - i\<close> in tuples.
\<close>

theorem iterator_difference_defined:
  "iter_diff a b =
     (if m_tupleLength a = 0 then Inl DivisionByZero
      else Inr (trunc_div (m_tupleAddress a - m_tupleAddress b) (m_tupleLength a)))
   \<and> iter_diff LttBlockIterator_default LttBlockIterator_default = Inl DivisionByZero
   \<and> (0 < m_tupleLength it \<longrightarrow> iter_diff (iter_plus it j) (iter_plus it i) = Inr (j - i))"
proof -
  have "iter_diff (iter_plus it j) (iter_plus it i) = Inr (j - i)" if "0 < m_tupleLength it"
    using that by (simp add: iter_diff_plus)
  then show ?thesis
    by (simp add: iter_diff_def LttBlockIterator_default_def)
qed

theorem iterator_difference_defined_witness:
  "(0::int) < 65
   \<and> iter_diff (iter_plus (LttBlockIterator_length 65 4096) 4) (iter_plus (LttBlockIterator_length 65 4096) 0) = Inr 4
   \<and> iter_diff LttBlockIterator_default LttBlockIterator_default = Inl DivisionByZero"
  using iterator_difference_defined
    [of LttBlockIterator_default LttBlockIterator_default "LttBlockIterator_length 65 4096" 4 0]
  by (simp add: LttBlockIterator_length_def LttBlockIterator_default_def)

section \<open>The sorter rearranges and orders\<close>

lemma iter_index_eq: "iter_index it k = m_tupleAddress it + k * m_tupleLength it"
  by (simp add: iter_index_def iter_deref_def iter_plus_def iter_add_assign_def)

lemma iter_index_mono:
  "0 < m_tupleLength it \<Longrightarrow> i \<le> j \<Longrightarrow> iter_index it i \<le> iter_index it j"
  by (simp add: iter_index_eq)

lemma iter_index_Suc: "iter_index it (k + 1) = iter_index it k + m_tupleLength it"
  by (simp add: iter_index_eq algebra_simps)

lemma tupleBytes_cong:
  "(\<And>x. a \<le> x \<Longrightarrow> x < a + len \<Longrightarrow> m' x = m x) \<Longrightarrow> tupleBytes m' a len = tupleBytes m a len"
  by (simp add: tupleBytes_def)

lemma tupleBytes_shift:
  "(\<And>k. 0 \<le> k \<Longrightarrow> k < len \<Longrightarrow> m' (a' + k) = m (a + k)) \<Longrightarrow> tupleBytes m' a' len = tupleBytes m a len"
  by (simp add: tupleBytes_def)

lemma in_tuples_one:
  "in_tuples it k (k + 1) x \<longleftrightarrow> iter_index it k \<le> x \<and> x < iter_index it k + m_tupleLength it"
  by (simp add: in_tuples_def iter_index_Suc)

lemma tupleAt_cong:
  "(\<And>x. in_tuples it k (k + 1) x \<Longrightarrow> m' x = m x) \<Longrightarrow> tupleAt m' it k = tupleAt m it k"
  unfolding tupleAt_def by (rule tupleBytes_cong) (simp add: in_tuples_one)

lemma in_tuples_sub:
  "0 < m_tupleLength it \<Longrightarrow> lo \<le> lo' \<Longrightarrow> hi' \<le> hi \<Longrightarrow> in_tuples it lo' hi' x \<Longrightarrow> in_tuples it lo hi x"
  using iter_index_mono [of it lo lo'] iter_index_mono [of it hi' hi]
  by (auto simp: in_tuples_def)

lemma in_tuples_disjoint:
  "0 < m_tupleLength it \<Longrightarrow> hi \<le> lo' \<Longrightarrow> in_tuples it lo hi x \<Longrightarrow> \<not> in_tuples it lo' hi' x"
  using iter_index_mono [of it hi lo']
  by (auto simp: in_tuples_def)

lemma scratch_apart:
  assumes "sorter_fits srt it n" "0 \<le> lo" "hi \<le> n" "in_tuples it lo hi x"
  shows "\<not> in_scratch srt x"
proof -
  have L: "0 < m_tupleLength it" using assms(1) by (simp add: sorter_fits_def)
  have "in_tuples it 0 n x"
    using in_tuples_sub [OF L assms(2) assms(3) assms(4)] .
  then have "m_tupleAddress it \<le> x \<and> x < m_tupleAddress it + n * m_tupleLength it"
    by (simp add: in_tuples_def iter_index_eq)
  then show ?thesis
    using assms(1) by (auto simp: sorter_fits_def in_scratch_def)
qed

lemma tuplesOf_split:
  "lo \<le> mid \<Longrightarrow> mid \<le> hi \<Longrightarrow> tuplesOf m it lo hi = tuplesOf m it lo mid @ tuplesOf m it mid hi"
proof -
  assume a: "lo \<le> mid" "mid \<le> hi"
  have "[lo..hi - 1] = [lo..mid - 1] @ [mid..hi - 1]"
  proof (cases "mid = hi")
    case True then show ?thesis by simp
  next
    case False
    then show ?thesis using a upto_split1 [of lo mid "hi - 1"] by simp
  qed
  then show ?thesis by (simp add: tuplesOf_def)
qed

lemma tuplesOf_cong:
  "(\<And>k. lo \<le> k \<Longrightarrow> k < hi \<Longrightarrow> tupleAt m' it k = tupleAt m it k) \<Longrightarrow> tuplesOf m' it lo hi = tuplesOf m it lo hi"
  by (simp add: tuplesOf_def)

lemma rearranged_refl: "rearranged srt it lo hi m m"
  by (simp add: rearranged_def)

lemma rearranged_trans:
  "rearranged srt it lo hi m m' \<Longrightarrow> rearranged srt it lo hi m' m'' \<Longrightarrow> rearranged srt it lo hi m m''"
  by (simp add: rearranged_def)

lemma rearranged_outside:
  assumes fits: "sorter_fits srt it n" and r: "rearranged srt it lo hi m m'"
    and k: "0 \<le> k" "k < n" "k < lo \<or> hi \<le> k"
  shows "tupleAt m' it k = tupleAt m it k"
proof (rule tupleAt_cong)
  fix x assume x: "in_tuples it k (k + 1) x"
  have L: "0 < m_tupleLength it" using fits by (simp add: sorter_fits_def)
  have "\<not> in_scratch srt x"
    using scratch_apart [OF fits _ _ x] k by simp
  moreover have "\<not> in_tuples it lo hi x"
  proof (cases "k < lo")
    case True
    then show ?thesis using in_tuples_disjoint [OF L _ x, of lo hi] by simp
  next
    case False
    then have "hi \<le> k" using k by simp
    then show ?thesis using in_tuples_disjoint [OF L, of hi k lo x "k + 1"] x by blast
  qed
  ultimately show "m' x = m x" using r by (simp add: rearranged_def)
qed

lemma rearranged_widen:
  assumes fits: "sorter_fits srt it n" and r: "rearranged srt it lo hi m m'"
    and b: "0 \<le> LO" "LO \<le> lo" "lo \<le> hi" "hi \<le> HI" "HI \<le> n"
  shows "rearranged srt it LO HI m m'"
proof -
  have L: "0 < m_tupleLength it" using fits by (simp add: sorter_fits_def)
  have frame: "m' x = m x" if "\<not> in_tuples it LO HI x" "\<not> in_scratch srt x" for x
  proof -
    have "\<not> in_tuples it lo hi x"
      using in_tuples_sub [OF L b(2) b(4)] that(1) by blast
    then show ?thesis using r that(2) by (simp add: rearranged_def)
  qed
  have left: "tuplesOf m' it LO lo = tuplesOf m it LO lo"
    by (rule tuplesOf_cong) (use b in \<open>auto intro!: rearranged_outside [OF fits r]\<close>)
  have right: "tuplesOf m' it hi HI = tuplesOf m it hi HI"
    by (rule tuplesOf_cong) (use b in \<open>auto intro!: rearranged_outside [OF fits r]\<close>)
  have split: "tuplesOf mm it LO HI = tuplesOf mm it LO lo @ tuplesOf mm it lo hi @ tuplesOf mm it hi HI" for mm
    using b tuplesOf_split [of LO lo HI mm it] tuplesOf_split [of lo hi HI mm it] by simp
  have "mset (tuplesOf m' it LO HI) = mset (tuplesOf m it LO HI)"
    using r by (simp add: split left right rearranged_def)
  with frame show ?thesis by (simp add: rearranged_def)
qed

lemma iter_index_apart:
  "0 < m_tupleLength it \<Longrightarrow> i < j \<Longrightarrow> iter_index it i + m_tupleLength it \<le> iter_index it j"
  using iter_index_mono [of it "i + 1" j] by (simp add: iter_index_Suc)

lemma fits_scratch_apart:
  assumes "sorter_fits srt it n" "0 \<le> k" "k < n"
  shows "tt_address (srt_tempTuple srt) + m_tupleLength it \<le> iter_index it k
         \<or> iter_index it k + m_tupleLength it \<le> tt_address (srt_tempTuple srt)"
proof -
  have L: "0 < m_tupleLength it" using assms(1) by (simp add: sorter_fits_def)
  have lo: "m_tupleAddress it \<le> iter_index it k"
    using iter_index_mono [OF L assms(2)] by (simp add: iter_index_eq)
  have "iter_index it (k + 1) \<le> iter_index it n"
    using iter_index_mono [OF L, of "k + 1" n] assms(3) by simp
  then have hi: "iter_index it k + m_tupleLength it \<le> m_tupleAddress it + n * m_tupleLength it"
    by (simp add: iter_index_Suc) (simp add: iter_index_eq)
  from lo hi assms(1) show ?thesis
    by (auto simp: sorter_fits_def)
qed

lemma swap_same: "mem (swap srt st t t) = mem st"
  by (simp add: swap_def)

lemma swap_counters:
  "compareCalls (swap srt st t0 t1) = compareCalls st \<and> swapCalls (swap srt st t0 t1) = swapCalls st + 1"
  by (simp add: swap_def Let_def)

lemma swap_bytes:
  assumes len: "tt_tupleLength (srt_tempTuple srt) = len"
    and apart: "t0 + len \<le> t1 \<or> t1 + len \<le> t0"
    and tmp0: "tt_address (srt_tempTuple srt) + len \<le> t0 \<or> t0 + len \<le> tt_address (srt_tempTuple srt)"
    and tmp1: "tt_address (srt_tempTuple srt) + len \<le> t1 \<or> t1 + len \<le> tt_address (srt_tempTuple srt)"
    and pos: "0 < len"
  shows "mem (swap srt st t0 t1) x =
     (if t0 \<le> x \<and> x < t0 + len then mem st (t1 + (x - t0))
      else if t1 \<le> x \<and> x < t1 + len then mem st (t0 + (x - t1))
      else if tt_address (srt_tempTuple srt) \<le> x \<and> x < tt_address (srt_tempTuple srt) + len
        then mem st (t0 + (x - tt_address (srt_tempTuple srt)))
      else mem st x)"
proof -
  define tmp where "tmp = tt_address (srt_tempTuple srt)"
  define m1 where "m1 = memcpy (mem st) tmp t0 len"
  define m2 where "m2 = memcpy m1 t0 t1 len"
  define m3 where "m3 = memcpy m2 t1 tmp len"
  have ne: "t0 \<noteq> t1" using apart pos by auto
  have res: "mem (swap srt st t0 t1) = m3"
    using ne by (simp add: swap_def Let_def len m1_def m2_def m3_def tmp_def)
  have t0': "tmp + len \<le> t0 \<or> t0 + len \<le> tmp" and t1': "tmp + len \<le> t1 \<or> t1 + len \<le> tmp"
    using tmp0 tmp1 by (simp_all add: tmp_def)
  consider (a) "t0 \<le> x \<and> x < t0 + len" | (b) "t1 \<le> x \<and> x < t1 + len"
    | (c) "tmp \<le> x \<and> x < tmp + len"
    | (d) "\<not> (t0 \<le> x \<and> x < t0 + len)" "\<not> (t1 \<le> x \<and> x < t1 + len)" "\<not> (tmp \<le> x \<and> x < tmp + len)"
    by blast
  then have "m3 x =
     (if t0 \<le> x \<and> x < t0 + len then mem st (t1 + (x - t0))
      else if t1 \<le> x \<and> x < t1 + len then mem st (t0 + (x - t1))
      else if tmp \<le> x \<and> x < tmp + len then mem st (t0 + (x - tmp))
      else mem st x)"
  proof cases
    case a
    have "m3 x = m2 x" using a apart by (auto simp: m3_def memcpy_def)
    also have "\<dots> = m1 (t1 + (x - t0))" using a by (auto simp: m2_def memcpy_def)
    also have "\<dots> = mem st (t1 + (x - t0))" using a t1' by (auto simp: m1_def memcpy_def)
    finally show ?thesis using a by auto
  next
    case b
    have nb: "\<not> (t0 \<le> x \<and> x < t0 + len)" using b apart by auto
    have "m3 x = m2 (tmp + (x - t1))" using b by (auto simp: m3_def memcpy_def)
    also have "\<dots> = m1 (tmp + (x - t1))" using b t0' by (auto simp: m2_def memcpy_def)
    also have "\<dots> = mem st (t0 + (x - t1))" using b by (auto simp: m1_def memcpy_def)
    finally show ?thesis using b nb by auto
  next
    case c
    have n0: "\<not> (t0 \<le> x \<and> x < t0 + len)" using c t0' by auto
    have n1: "\<not> (t1 \<le> x \<and> x < t1 + len)" using c t1' by auto
    have "m3 x = m2 x" using n1 by (auto simp: m3_def memcpy_def)
    also have "\<dots> = m1 x" using n0 by (auto simp: m2_def memcpy_def)
    also have "\<dots> = mem st (t0 + (x - tmp))" using c by (auto simp: m1_def memcpy_def)
    finally show ?thesis using c n0 n1 by auto
  next
    case d
    have "m3 x = m2 x" using d by (auto simp: m3_def memcpy_def)
    also have "\<dots> = m1 x" using d by (auto simp: m2_def memcpy_def)
    also have "\<dots> = mem st x" using d by (auto simp: m1_def memcpy_def)
    finally show ?thesis using d by auto
  qed
  then show ?thesis by (simp add: res tmp_def)
qed

lemma swap_tupleAt:
  assumes fits: "sorter_fits srt it n" and i: "0 \<le> i" "i < n" and j: "0 \<le> j" "j < n"
    and k: "0 \<le> k" "k < n"
  shows "tupleAt (mem (swap srt st (iter_index it i) (iter_index it j))) it k =
     (if k = i then tupleAt (mem st) it j else if k = j then tupleAt (mem st) it i
      else tupleAt (mem st) it k)"
proof (cases "i = j")
  case True
  then show ?thesis by (simp add: swap_same)
next
  case False
  define L where "L = m_tupleLength it"
  define tmp where "tmp = tt_address (srt_tempTuple srt)"
  have L: "0 < L" and len: "tt_tupleLength (srt_tempTuple srt) = L"
    using fits by (simp_all add: sorter_fits_def L_def)
  have "i < j \<or> j < i" using False by auto
  then have ij: "iter_index it i + L \<le> iter_index it j \<or> iter_index it j + L \<le> iter_index it i"
    using iter_index_apart [of it i j] iter_index_apart [of it j i] L
    unfolding L_def by blast
  have ti: "tmp + L \<le> iter_index it i \<or> iter_index it i + L \<le> tmp"
    using fits_scratch_apart [OF fits i] by (simp add: L_def tmp_def)
  have tj: "tmp + L \<le> iter_index it j \<or> iter_index it j + L \<le> tmp"
    using fits_scratch_apart [OF fits j] by (simp add: L_def tmp_def)
  have tk: "tmp + L \<le> iter_index it k \<or> iter_index it k + L \<le> tmp"
    using fits_scratch_apart [OF fits k] by (simp add: L_def tmp_def)
  have ki: "iter_index it i + L \<le> iter_index it k \<or> iter_index it k + L \<le> iter_index it i"
    if "k \<noteq> i"
  proof -
    have "i < k \<or> k < i" using that by auto
    then show ?thesis
      using iter_index_apart [of it i k] iter_index_apart [of it k i] L
      unfolding L_def by blast
  qed
  have kj: "iter_index it j + L \<le> iter_index it k \<or> iter_index it k + L \<le> iter_index it j"
    if "k \<noteq> j"
  proof -
    have "j < k \<or> k < j" using that by auto
    then show ?thesis
      using iter_index_apart [of it j k] iter_index_apart [of it k j] L
      unfolding L_def by blast
  qed
  note sb = swap_bytes [OF len ij, folded tmp_def, OF ti tj L]
  show ?thesis
  proof (cases "k = i")
    case True
    have "tupleBytes (mem (swap srt st (iter_index it i) (iter_index it j))) (iter_index it i) L
        = tupleBytes (mem st) (iter_index it j) L"
      by (rule tupleBytes_shift) (simp add: sb)
    then show ?thesis using True by (simp add: tupleAt_def L_def)
  next
    case ni: False
    show ?thesis
    proof (cases "k = j")
      case True
      have "tupleBytes (mem (swap srt st (iter_index it i) (iter_index it j))) (iter_index it j) L
          = tupleBytes (mem st) (iter_index it i) L"
        by (rule tupleBytes_shift) (use ij in \<open>auto simp: sb\<close>)
      then show ?thesis using True ni by (simp add: tupleAt_def L_def)
    next
      case nj: False
      have "tupleBytes (mem (swap srt st (iter_index it i) (iter_index it j))) (iter_index it k) L
          = tupleBytes (mem st) (iter_index it k) L"
        by (rule tupleBytes_cong) (use ki [OF ni] kj [OF nj] tk in \<open>auto simp: sb\<close>)
      then show ?thesis using ni nj by (simp add: tupleAt_def L_def)
    qed
  qed
qed

lemma swap_frame:
  assumes fits: "sorter_fits srt it n" and i: "0 \<le> i" "i < n" and j: "0 \<le> j" "j < n"
    and x: "\<not> in_tuples it i (i + 1) x" "\<not> in_tuples it j (j + 1) x" "\<not> in_scratch srt x"
  shows "mem (swap srt st (iter_index it i) (iter_index it j)) x = mem st x"
proof (cases "i = j")
  case True
  then show ?thesis by (simp add: swap_same)
next
  case False
  define L where "L = m_tupleLength it"
  define tmp where "tmp = tt_address (srt_tempTuple srt)"
  have L: "0 < L" and len: "tt_tupleLength (srt_tempTuple srt) = L"
    using fits by (simp_all add: sorter_fits_def L_def)
  have "i < j \<or> j < i" using False by auto
  then have ij: "iter_index it i + L \<le> iter_index it j \<or> iter_index it j + L \<le> iter_index it i"
    using iter_index_apart [of it i j] iter_index_apart [of it j i] L
    unfolding L_def by blast
  have ti: "tmp + L \<le> iter_index it i \<or> iter_index it i + L \<le> tmp"
    using fits_scratch_apart [OF fits i] by (simp add: L_def tmp_def)
  have tj: "tmp + L \<le> iter_index it j \<or> iter_index it j + L \<le> tmp"
    using fits_scratch_apart [OF fits j] by (simp add: L_def tmp_def)
  note sb = swap_bytes [OF len ij, folded tmp_def, OF ti tj L]
  have "\<not> (iter_index it i \<le> x \<and> x < iter_index it i + L)"
    "\<not> (iter_index it j \<le> x \<and> x < iter_index it j + L)"
    "\<not> (tmp \<le> x \<and> x < tmp + L)"
    using x by (simp_all add: in_tuples_one in_scratch_def len L_def tmp_def)
  then show ?thesis
    by (auto simp: sb)
qed

lemma mset_map_transpose:
  fixes xs :: "int list"
  assumes "distinct xs" "i \<in> set xs" "j \<in> set xs"
  shows "mset (map (\<lambda>k. if k = i then j else if k = j then i else k) xs) = mset xs"
proof -
  let ?t = "\<lambda>k. if k = i then j else if k = j then i else k"
  have inj: "inj_on ?t (set xs)" by (auto simp: inj_on_def)
  have img: "?t ` set xs = set xs" using assms(2,3) by (auto simp: image_def)
  have "mset (map ?t xs) = image_mset ?t (mset_set (set xs))"
    using assms(1) by (simp add: mset_set_set)
  also have "\<dots> = mset_set (?t ` set xs)"
    using inj by (rule image_mset_mset_set)
  also have "\<dots> = mset_set (set xs)"
    by (simp only: img)
  also have "\<dots> = mset xs"
    using assms(1) by (rule mset_set_set)
  finally show ?thesis .
qed

lemma swap_rearranged:
  assumes fits: "sorter_fits srt it n" and b: "0 \<le> lo" "hi \<le> n"
    and i: "lo \<le> i" "i < hi" and j: "lo \<le> j" "j < hi"
  shows "rearranged srt it lo hi (mem st) (mem (swap srt st (iter_index it i) (iter_index it j)))"
proof -
  let ?m' = "mem (swap srt st (iter_index it i) (iter_index it j))"
  let ?t = "\<lambda>k. if k = i then j else if k = j then i else k"
  have L: "0 < m_tupleLength it" using fits by (simp add: sorter_fits_def)
  have frame: "?m' x = mem st x" if "\<not> in_tuples it lo hi x" "\<not> in_scratch srt x" for x
  proof (rule swap_frame [OF fits])
    show "\<not> in_tuples it i (i + 1) x"
      using in_tuples_sub [OF L, of lo i "i + 1" hi x] i that(1) by auto
    show "\<not> in_tuples it j (j + 1) x"
      using in_tuples_sub [OF L, of lo j "j + 1" hi x] j that(1) by auto
  qed (use b i j that in auto)
  have "tuplesOf ?m' it lo hi = map (\<lambda>k. tupleAt (mem st) it (?t k)) [lo..hi - 1]"
    unfolding tuplesOf_def
  proof (rule map_cong [OF refl])
    fix k assume "k \<in> set [lo..hi - 1]"
    then have k: "0 \<le> k" "k < n" using b by auto
    show "tupleAt ?m' it k = tupleAt (mem st) it (?t k)"
      using swap_tupleAt [OF fits _ _ _ _ k, of i j st] b i j by auto
  qed
  then have "mset (tuplesOf ?m' it lo hi)
      = image_mset (\<lambda>k. tupleAt (mem st) it (?t k)) (mset [lo..hi - 1])"
    by simp
  also have "\<dots> = image_mset (tupleAt (mem st) it) (image_mset ?t (mset [lo..hi - 1]))"
    by (simp add: multiset.map_comp comp_def)
  also have "image_mset ?t (mset [lo..hi - 1]) = mset [lo..hi - 1]"
    using mset_map_transpose [of "[lo..hi - 1]" i j] i j by simp
  finally have "mset (tuplesOf ?m' it lo hi) = mset (tuplesOf (mem st) it lo hi)"
    by (simp add: tuplesOf_def)
  with frame show ?thesis by (simp add: rearranged_def)
qed

lemma iter_plus_plus: "iter_plus (iter_plus it a) b = iter_plus it (a + b)"
  by (simp add: iter_plus_def iter_add_assign_def algebra_simps)

lemma iter_index_plus: "iter_index (iter_plus it a) b = iter_index it (a + b)"
  by (simp add: iter_index_def iter_plus_plus)

lemma iter_deref_plus: "iter_deref (iter_plus it a) = iter_index it a"
  by (simp add: iter_index_def)

lemma iter_minus_plus: "iter_minus (iter_plus it a) b = iter_plus it (a - b)"
  by (simp add: iter_minus_def iter_sub_assign_def iter_plus_def iter_add_assign_def algebra_simps)

lemma compare_mem: "mem (snd (compare srt st t0 t1)) = mem st"
  by (simp add: compare_def)

lemma compare_counters:
  "compareCalls (snd (compare srt st t0 t1)) = compareCalls st + 1
   \<and> swapCalls (snd (compare srt st t0 t1)) = swapCalls st"
  by (simp add: compare_def)

lemma while_rearranged:
  assumes fits: "sorter_fits srt it n" and b: "0 \<le> lo" "hi \<le> n"
  shows "0 \<le> j \<Longrightarrow> lo + j < hi \<Longrightarrow>
    rearranged srt it lo hi (mem st) (mem (insertionSort_while srt st (iter_plus it lo) j))"
proof (induction "nat j" arbitrary: j st)
  case 0
  then have "insertionSort_while srt st (iter_plus it lo) j = st"
    by (subst insertionSort_while.simps) simp
  then show ?case
    by (simp add: rearranged_refl)
next
  case (Suc d)
  then have j: "0 < j" by simp
  obtain c st1 where cmp: "compare srt st (iter_index it (lo + j)) (iter_index it (lo + (j - 1))) = (c, st1)"
    by (cases "compare srt st (iter_index it (lo + j)) (iter_index it (lo + (j - 1)))")
  have m1: "mem st1 = mem st" using compare_mem [of srt st] cmp by (metis snd_conv)
  show ?case
  proof (cases c)
    case False
    then show ?thesis
      using j cmp m1
      by (simp add: insertionSort_while.simps [of srt st "iter_plus it lo" j] iter_index_plus rearranged_refl)
  next
    case True
    let ?st2 = "swap srt st1 (iter_index it (lo + (j - 1))) (iter_index it (lo + j))"
    have r1: "rearranged srt it lo hi (mem st) (mem ?st2)"
      using swap_rearranged [OF fits b, of "lo + (j - 1)" "lo + j" st1] j Suc.prems m1 by simp
    have r2: "rearranged srt it lo hi (mem ?st2) (mem (insertionSort_while srt ?st2 (iter_plus it lo) (j - 1)))"
      using Suc.hyps(1) [of "j - 1" ?st2] Suc.hyps(2) Suc.prems j by simp
    have "insertionSort_while srt st (iter_plus it lo) j = insertionSort_while srt ?st2 (iter_plus it lo) (j - 1)"
      using j cmp True
      by (simp add: insertionSort_while.simps [of srt st "iter_plus it lo" j] iter_index_plus)
    then show ?thesis using rearranged_trans [OF r1 r2] by simp
  qed
qed

lemma for_rearranged:
  assumes fits: "sorter_fits srt it n" and b: "0 \<le> lo" "hi \<le> n"
  shows "0 \<le> i \<Longrightarrow> lo + N \<le> hi \<Longrightarrow>
    rearranged srt it lo hi (mem st) (mem (insertionSort_for N srt st (iter_plus it lo) i))"
proof (induction "nat (N - i)" arbitrary: i st)
  case 0
  then have "insertionSort_for N srt st (iter_plus it lo) i = st"
    by (subst insertionSort_for.simps) simp
  then show ?case
    by (simp add: rearranged_refl)
next
  case (Suc d)
  then have i: "i < N" by simp
  let ?st1 = "insertionSort_while srt st (iter_plus it lo) i"
  have r1: "rearranged srt it lo hi (mem st) (mem ?st1)"
    using while_rearranged [OF fits b, of i st] Suc.prems i by simp
  have r2: "rearranged srt it lo hi (mem ?st1) (mem (insertionSort_for N srt ?st1 (iter_plus it lo) (i + 1)))"
    using Suc.hyps(1) [of "i + 1" ?st1] Suc.hyps(2) Suc.prems by simp
  have "insertionSort_for N srt st (iter_plus it lo) i = insertionSort_for N srt ?st1 (iter_plus it lo) (i + 1)"
    using i by (simp add: insertionSort_for.simps [of N srt st "iter_plus it lo" i])
  then show ?case using rearranged_trans [OF r1 r2] by simp
qed

lemma partition_rearranged:
  assumes fits: "sorter_fits srt it n" and b: "0 \<le> lo" "hi \<le> n" "lo + numElems \<le> hi"
  shows "- 1 \<le> i \<Longrightarrow> i < j \<Longrightarrow> j \<le> numElems - 1 \<Longrightarrow>
    (case partition_for srt st (iter_plus it lo) pivot numElems i j of
       (st', i') \<Rightarrow> rearranged srt it lo hi (mem st) (mem st') \<and> i \<le> i' \<and> i' < numElems - 1)"
proof (induction "nat (numElems - 1 - j)" arbitrary: i j st)
  case 0
  then have "partition_for srt st (iter_plus it lo) pivot numElems i j = (st, i)"
    by (subst partition_for.simps) simp
  then show ?case
    using 0 by (simp add: rearranged_refl)
next
  case (Suc d)
  then have j: "j < numElems - 1" by simp
  obtain c st1 where cmp: "compare srt st (iter_index it (lo + j)) (iter_deref pivot) = (c, st1)"
    by (cases "compare srt st (iter_index it (lo + j)) (iter_deref pivot)")
  have m1: "mem st1 = mem st" using compare_mem [of srt st] cmp by (metis snd_conv)
  show ?case
  proof (cases c)
    case False
    have eq: "partition_for srt st (iter_plus it lo) pivot numElems i j
        = partition_for srt st1 (iter_plus it lo) pivot numElems i (j + 1)"
      using j cmp False
      by (simp add: partition_for.simps [of srt st "iter_plus it lo" pivot numElems i j]
          iter_deref_plus iter_index_plus)
    show ?thesis
      using Suc.hyps(1) [of "j + 1" i st1] Suc.hyps(2) Suc.prems j
      by (simp add: eq m1 split: prod.splits)
  next
    case True
    let ?st2 = "swap srt st1 (iter_index it (lo + j)) (iter_index it (lo + (i + 1)))"
    have eq: "partition_for srt st (iter_plus it lo) pivot numElems i j
        = partition_for srt ?st2 (iter_plus it lo) pivot numElems (i + 1) (j + 1)"
      using j cmp True
      by (simp add: partition_for.simps [of srt st "iter_plus it lo" pivot numElems i j]
          iter_deref_plus iter_index_plus)
    have r1: "rearranged srt it lo hi (mem st) (mem ?st2)"
      using swap_rearranged [OF fits b(1,2), of "lo + j" "lo + (i + 1)" st1] j Suc.prems b m1 by simp
    obtain st' i' where res: "partition_for srt ?st2 (iter_plus it lo) pivot numElems (i + 1) (j + 1) = (st', i')"
      by (cases "partition_for srt ?st2 (iter_plus it lo) pivot numElems (i + 1) (j + 1)")
    have "rearranged srt it lo hi (mem ?st2) (mem st') \<and> i + 1 \<le> i' \<and> i' < numElems - 1"
      using Suc.hyps(1) [of "j + 1" "i + 1" ?st2] Suc.hyps(2) Suc.prems j res by simp
    then show ?thesis
      using rearranged_trans [OF r1] by (simp add: eq res)
  qed
qed

lemma swo_irrefl: "strict_weak_order lt \<Longrightarrow> \<not> lt x x"
  by (simp add: strict_weak_order_def)

lemma swo_trans: "strict_weak_order lt \<Longrightarrow> lt x y \<Longrightarrow> lt y z \<Longrightarrow> lt x z"
  unfolding strict_weak_order_def by blast

lemma swo_asym: "strict_weak_order lt \<Longrightarrow> lt x y \<Longrightarrow> \<not> lt y x"
  using swo_irrefl swo_trans by metis

lemma swo_negtrans:
  assumes swo: "strict_weak_order lt" and xy: "lt x y"
  shows "lt x z \<or> lt z y"
proof (rule ccontr)
  assume "\<not> (lt x z \<or> lt z y)"
  then have n: "\<not> lt x z" "\<not> lt z y" by simp_all
  have "\<not> lt z x" using n(2) xy swo_trans [OF swo, of z x y] by blast
  moreover have "\<not> lt y z" using n(1) xy swo_trans [OF swo, of x y z] by blast
  ultimately have "\<not> lt x y"
    using swo n unfolding strict_weak_order_def by blast
  with xy show False by simp
qed

lemma compare_less:
  assumes "compares_as lt srt it n m0" "rearranged srt it 0 n m0 (mem st)"
    "0 \<le> i" "i < n" "0 \<le> j" "j < n"
  shows "fst (compare srt st (iter_index it i) (iter_index it j))
     = lt (tupleAt (mem st) it i) (tupleAt (mem st) it j)"
  using assms unfolding compares_as_def compare_def by simp

lemma rearranged_elem:
  assumes r: "rearranged srt it lo hi m m'" and k: "lo \<le> k" "k < hi"
  shows "\<exists>k'. lo \<le> k' \<and> k' < hi \<and> tupleAt m' it k = tupleAt m it k'"
proof -
  have "set (tuplesOf m' it lo hi) = set (tuplesOf m it lo hi)"
    using r by (metis rearranged_def mset_eq_setD)
  moreover have "tupleAt m' it k \<in> set (tuplesOf m' it lo hi)"
    using k by (simp add: tuplesOf_def)
  ultimately have "tupleAt m' it k \<in> set (tuplesOf m it lo hi)" by simp
  then show ?thesis by (auto simp: tuplesOf_def)
qed

lemma while_ordered:
  assumes fits: "sorter_fits srt it n" and swo: "strict_weak_order lt"
    and cmp: "compares_as lt srt it n m0" and b: "0 \<le> lo" "lo + i < n"
  shows "0 \<le> j \<Longrightarrow> j \<le> i \<Longrightarrow> rearranged srt it 0 n m0 (mem st) \<Longrightarrow>
     (\<forall>k k'. lo \<le> k \<and> k < k' \<and> k' \<le> lo + i \<and> k \<noteq> lo + j \<and> k' \<noteq> lo + j
        \<longrightarrow> \<not> lt (tupleAt (mem st) it k') (tupleAt (mem st) it k)) \<Longrightarrow>
     (\<forall>k. lo + j < k \<and> k \<le> lo + i \<longrightarrow> lt (tupleAt (mem st) it (lo + j)) (tupleAt (mem st) it k)) \<Longrightarrow>
     ordered lt (mem (insertionSort_while srt st (iter_plus it lo) j)) it lo (lo + i + 1)"
proof (induction "nat j" arbitrary: j st)
  case 0
  define T where "T = tupleAt (mem st) it"
  have j0: "j = 0" using 0 by simp
  have res: "insertionSort_while srt st (iter_plus it lo) j = st"
    using j0 by (subst insertionSort_while.simps) simp
  have "\<not> lt (T k') (T k)" if "lo \<le> k" "k < k'" "k' < lo + i + 1" for k k'
  proof (cases "k = lo")
    case True
    then have "lt (T lo) (T k')" using "0.prems"(5) that j0 by (simp add: T_def)
    then show ?thesis using swo_asym [OF swo] True by blast
  next
    case False
    then show ?thesis using "0.prems"(4) that j0 by (simp add: T_def)
  qed
  then show ?case by (simp add: ordered_def res T_def)
next
  case (Suc d)
  define T where "T = tupleAt (mem st) it"
  have j: "0 < j" using Suc by simp
  have inv1: "\<not> lt (T k') (T k)"
    if "lo \<le> k" "k < k'" "k' \<le> lo + i" "k \<noteq> lo + j" "k' \<noteq> lo + j" for k k'
    using Suc.prems(4) that by (simp add: T_def)
  have inv2: "lt (T (lo + j)) (T k)" if "lo + j < k" "k \<le> lo + i" for k
    using Suc.prems(5) that by (simp add: T_def)
  obtain c st1 where cmp1: "compare srt st (iter_index it (lo + j)) (iter_index it (lo + (j - 1))) = (c, st1)"
    by (cases "compare srt st (iter_index it (lo + j)) (iter_index it (lo + (j - 1)))")
  have m1: "mem st1 = mem st" using compare_mem [of srt st] cmp1 by (metis snd_conv)
  have c: "c = lt (T (lo + j)) (T (lo + j - 1))"
    using compare_less [OF cmp Suc.prems(3), of "lo + j" "lo + (j - 1)"] cmp1 b j Suc.prems
    by (simp add: T_def algebra_simps)
  show ?case
  proof (cases c)
    case False
    have res: "insertionSort_while srt st (iter_plus it lo) j = st1"
      using j cmp1 False
      by (simp add: insertionSort_while.simps [of srt st "iter_plus it lo" j] iter_index_plus)
    have "\<not> lt (T k') (T k)" if kk: "lo \<le> k" "k < k'" "k' < lo + i + 1" for k k'
    proof -
      consider (a) "k = lo + j" | (b) "k' = lo + j" "k = lo + j - 1" | (c) "k' = lo + j" "k < lo + j - 1"
        | (d) "k \<noteq> lo + j" "k' \<noteq> lo + j"
        using kk by force
      then show ?thesis
      proof cases
        case a
        then have "lt (T k) (T k')" using inv2 [of k'] kk by simp
        then show ?thesis using swo_asym [OF swo] by blast
      next
        case b
        then show ?thesis using False c by simp
      next
        case c
        have "\<not> lt (T (lo + j - 1)) (T k)"
          using inv1 [of k "lo + j - 1"] kk c Suc.prems by simp
        moreover have "\<not> lt (T (lo + j)) (T (lo + j - 1))" using False \<open>c = _\<close> by simp
        ultimately show ?thesis
          using swo_negtrans [OF swo, of "T (lo + j)" "T k" "T (lo + j - 1)"] c by blast
      next
        case d
        then show ?thesis using inv1 [of k k'] kk by simp
      qed
    qed
    then show ?thesis by (simp add: ordered_def res m1 T_def)
  next
    case True
    define st2 where "st2 = swap srt st1 (iter_index it (lo + (j - 1))) (iter_index it (lo + j))"
    define T2 where "T2 = tupleAt (mem st2) it"
    have res: "insertionSort_while srt st (iter_plus it lo) j = insertionSort_while srt st2 (iter_plus it lo) (j - 1)"
      using j cmp1 True
      by (simp add: insertionSort_while.simps [of srt st "iter_plus it lo" j] iter_index_plus st2_def)
    have T2: "T2 k = (if k = lo + j - 1 then T (lo + j) else if k = lo + j then T (lo + j - 1) else T k)"
      if "0 \<le> k" "k < n" for k
      using swap_tupleAt [OF fits _ _ _ _ that, of "lo + (j - 1)" "lo + j" st1] b j Suc.prems
      by (simp add: T2_def st2_def T_def m1 algebra_simps)
    have r2: "rearranged srt it 0 n m0 (mem st2)"
      using rearranged_trans [OF Suc.prems(3)]
        swap_rearranged [OF fits, of 0 n "lo + (j - 1)" "lo + j" st1] b j Suc.prems
      by (simp add: st2_def m1)
    have inv1': "\<forall>k k'. lo \<le> k \<and> k < k' \<and> k' \<le> lo + i \<and> k \<noteq> lo + (j - 1) \<and> k' \<noteq> lo + (j - 1)
        \<longrightarrow> \<not> lt (T2 k') (T2 k)"
    proof (intro allI impI)
      fix k k'
      assume h: "lo \<le> k \<and> k < k' \<and> k' \<le> lo + i \<and> k \<noteq> lo + (j - 1) \<and> k' \<noteq> lo + (j - 1)"
      then have kb: "0 \<le> k" "k < n" "0 \<le> k'" "k' < n" using b by auto
      consider (a) "k = lo + j" | (b) "k' = lo + j" | (d) "k \<noteq> lo + j" "k' \<noteq> lo + j" by blast
      then show "\<not> lt (T2 k') (T2 k)"
      proof cases
        case a
        then show ?thesis using T2 [OF kb(1,2)] T2 [OF kb(3,4)] h j inv1 [of "lo + j - 1" k'] by simp
      next
        case b
        then show ?thesis using T2 [OF kb(1,2)] T2 [OF kb(3,4)] h j inv1 [of k "lo + j - 1"] by simp
      next
        case d
        then show ?thesis using T2 [OF kb(1,2)] T2 [OF kb(3,4)] h j inv1 [of k k'] by simp
      qed
    qed
    have inv2': "\<forall>k. lo + (j - 1) < k \<and> k \<le> lo + i \<longrightarrow> lt (T2 (lo + (j - 1))) (T2 k)"
    proof (intro allI impI)
      fix k assume h: "lo + (j - 1) < k \<and> k \<le> lo + i"
      then have kb: "0 \<le> k" "k < n" using b Suc.prems by auto
      have jb: "0 \<le> lo + (j - 1)" "lo + (j - 1) < n" using b j Suc.prems by auto
      show "lt (T2 (lo + (j - 1))) (T2 k)"
      proof (cases "k = lo + j")
        case True
        then show ?thesis using T2 [OF kb] T2 [OF jb] \<open>c\<close> c by (simp add: algebra_simps)
      next
        case False
        then show ?thesis using T2 [OF kb] T2 [OF jb] h inv2 [of k] by (simp add: algebra_simps)
      qed
    qed
    show ?thesis
      unfolding res
      using Suc.hyps(1) [of "j - 1" st2] Suc.hyps(2) Suc.prems(1,2) j r2 inv1' inv2'
      by (simp add: T2_def)
  qed
qed

lemma for_ordered:
  assumes fits: "sorter_fits srt it n" and swo: "strict_weak_order lt"
    and cmp: "compares_as lt srt it n m0" and b: "0 \<le> lo" "lo + N \<le> n"
  shows "0 \<le> i \<Longrightarrow> i \<le> N \<Longrightarrow> rearranged srt it 0 n m0 (mem st) \<Longrightarrow>
     ordered lt (mem st) it lo (lo + i) \<Longrightarrow>
     ordered lt (mem (insertionSort_for N srt st (iter_plus it lo) i)) it lo (lo + N)"
proof (induction "nat (N - i)" arbitrary: i st)
  case 0
  then have iN: "i = N" by simp
  have "insertionSort_for N srt st (iter_plus it lo) i = st"
    using iN by (subst insertionSort_for.simps) simp
  then show ?case using 0 iN by simp
next
  case (Suc d)
  then have i: "i < N" by simp
  define st1 where "st1 = insertionSort_while srt st (iter_plus it lo) i"
  have res: "insertionSort_for N srt st (iter_plus it lo) i = insertionSort_for N srt st1 (iter_plus it lo) (i + 1)"
    using i by (simp add: insertionSort_for.simps [of N srt st "iter_plus it lo" i] st1_def)
  have "rearranged srt it lo n (mem st) (mem st1)"
    unfolding st1_def using while_rearranged [OF fits b(1), of n i st] i b Suc.prems by simp
  then have "rearranged srt it 0 n (mem st) (mem st1)"
    using rearranged_widen [OF fits, of lo n _ _ 0 n] b i Suc.prems by simp
  then have r1: "rearranged srt it 0 n m0 (mem st1)"
    using rearranged_trans [OF Suc.prems(3)] by simp
  have inv1: "\<forall>k k'. lo \<le> k \<and> k < k' \<and> k' \<le> lo + i \<and> k \<noteq> lo + i \<and> k' \<noteq> lo + i
        \<longrightarrow> \<not> lt (tupleAt (mem st) it k') (tupleAt (mem st) it k)"
    using Suc.prems(4) by (simp add: ordered_def)
  have inv2: "\<forall>k. lo + i < k \<and> k \<le> lo + i \<longrightarrow> lt (tupleAt (mem st) it (lo + i)) (tupleAt (mem st) it k)"
    by auto
  have "lo + i < n" using i b by simp
  then have o1: "ordered lt (mem st1) it lo (lo + (i + 1))"
    unfolding st1_def
    using while_ordered [OF fits swo cmp b(1) _ Suc.prems(1) _ Suc.prems(3) inv1 inv2]
    by (simp add: add.assoc)
  show ?case
    unfolding res
    using Suc.hyps(1) [of "i + 1" st1] Suc.hyps(2) Suc.prems(1) i r1 o1 by simp
qed

lemma partition_ordered:
  assumes fits: "sorter_fits srt it n" and swo: "strict_weak_order lt"
    and cmp: "compares_as lt srt it n m0" and b: "0 \<le> lo" "lo + numElems \<le> n"
    and pivot: "pivot = iter_plus it (lo + numElems - 1)"
  shows "- 1 \<le> i \<Longrightarrow> i < j \<Longrightarrow> j \<le> numElems - 1 \<Longrightarrow> rearranged srt it 0 n m0 (mem st) \<Longrightarrow>
     (\<forall>k. lo \<le> k \<and> k \<le> lo + i \<longrightarrow> lt (tupleAt (mem st) it k) pv) \<Longrightarrow>
     (\<forall>k. lo + i < k \<and> k < lo + j \<longrightarrow> \<not> lt (tupleAt (mem st) it k) pv) \<Longrightarrow>
     tupleAt (mem st) it (lo + numElems - 1) = pv \<Longrightarrow>
     (case partition_for srt st (iter_plus it lo) pivot numElems i j of
        (st', i') \<Rightarrow>
          (\<forall>k. lo \<le> k \<and> k \<le> lo + i' \<longrightarrow> lt (tupleAt (mem st') it k) pv) \<and>
          (\<forall>k. lo + i' < k \<and> k < lo + numElems - 1 \<longrightarrow> \<not> lt (tupleAt (mem st') it k) pv) \<and>
          tupleAt (mem st') it (lo + numElems - 1) = pv)"
proof (induction "nat (numElems - 1 - j)" arbitrary: i j st)
  case 0
  then have jn: "j = numElems - 1" by simp
  have res: "partition_for srt st (iter_plus it lo) pivot numElems i j = (st, i)"
    using jn by (subst partition_for.simps) simp
  show ?case
    unfolding res using "0.prems"(5,6,7) jn by (simp add: add_diff_eq)
next
  case (Suc d)
  define T where "T = tupleAt (mem st) it"
  have j: "j < numElems - 1" using Suc by simp
  have low: "lt (T k) pv" if "lo \<le> k" "k \<le> lo + i" for k
    using Suc.prems(5) that by (simp add: T_def)
  have high: "\<not> lt (T k) pv" if "lo + i < k" "k < lo + j" for k
    using Suc.prems(6) that by (simp add: T_def)
  have piv: "T (lo + numElems - 1) = pv" using Suc.prems(7) by (simp add: T_def)
  obtain c st1 where cmp1: "compare srt st (iter_index it (lo + j)) (iter_index it (lo + numElems - 1)) = (c, st1)"
    by (cases "compare srt st (iter_index it (lo + j)) (iter_index it (lo + numElems - 1))")
  have m1: "mem st1 = mem st" using compare_mem [of srt st] cmp1 by (metis snd_conv)
  have c: "c = lt (T (lo + j)) pv"
    using compare_less [OF cmp Suc.prems(4), of "lo + j" "lo + numElems - 1"] cmp1 b j Suc.prems(1,2) piv
    by (simp add: T_def)
  show ?case
  proof (cases c)
    case False
    have eq: "partition_for srt st (iter_plus it lo) pivot numElems i j
        = partition_for srt st1 (iter_plus it lo) pivot numElems i (j + 1)"
      using j cmp1 False
      by (subst partition_for.simps) (simp add: iter_deref_plus iter_index_plus pivot)
    have high': "\<forall>k. lo + i < k \<and> k < lo + (j + 1) \<longrightarrow> \<not> lt (tupleAt (mem st1) it k) pv"
    proof (intro allI impI)
      fix k assume h: "lo + i < k \<and> k < lo + (j + 1)"
      show "\<not> lt (tupleAt (mem st1) it k) pv"
      proof (cases "k = lo + j")
        case True
        then show ?thesis using False c by (simp add: m1 T_def)
      next
        case False
        then show ?thesis using high [of k] h by (simp add: m1 T_def)
      qed
    qed
    show ?thesis
      unfolding eq
      using Suc.hyps(1) [of "j + 1" i st1] Suc.hyps(2) Suc.prems(1,2,4,5,7) j high'
      by (simp add: m1)
  next
    case True
    define st2 where "st2 = swap srt st1 (iter_index it (lo + j)) (iter_index it (lo + (i + 1)))"
    define T2 where "T2 = tupleAt (mem st2) it"
    have eq: "partition_for srt st (iter_plus it lo) pivot numElems i j
        = partition_for srt st2 (iter_plus it lo) pivot numElems (i + 1) (j + 1)"
      using j cmp1 True
      by (subst partition_for.simps) (simp add: iter_deref_plus iter_index_plus pivot st2_def)
    have T2: "T2 k = (if k = lo + j then T (lo + (i + 1)) else if k = lo + (i + 1) then T (lo + j) else T k)"
      if "0 \<le> k" "k < n" for k
      using swap_tupleAt [OF fits _ _ _ _ that, of "lo + j" "lo + (i + 1)" st1] b j Suc.prems(1,2)
      by (simp add: T2_def st2_def T_def m1)
    have r2: "rearranged srt it 0 n m0 (mem st2)"
      using rearranged_trans [OF Suc.prems(4)]
        swap_rearranged [OF fits, of 0 n "lo + j" "lo + (i + 1)" st1] b j Suc.prems(1,2)
      by (simp add: st2_def m1)
    have low': "\<forall>k. lo \<le> k \<and> k \<le> lo + (i + 1) \<longrightarrow> lt (T2 k) pv"
    proof (intro allI impI)
      fix k assume h: "lo \<le> k \<and> k \<le> lo + (i + 1)"
      then have kb: "0 \<le> k" "k < n" using b j Suc.prems(1,2) by auto
      show "lt (T2 k) pv"
      proof (cases "k = lo + (i + 1)")
        case True
        then show ?thesis using T2 [OF kb] \<open>c\<close> c by simp
      next
        case False
        then show ?thesis using T2 [OF kb] h low [of k] Suc.prems(2) by simp
      qed
    qed
    have high': "\<forall>k. lo + (i + 1) < k \<and> k < lo + (j + 1) \<longrightarrow> \<not> lt (T2 k) pv"
    proof (intro allI impI)
      fix k assume h: "lo + (i + 1) < k \<and> k < lo + (j + 1)"
      then have kb: "0 \<le> k" "k < n" using b j Suc.prems(1,2) by auto
      show "\<not> lt (T2 k) pv"
      proof (cases "k = lo + j")
        case True
        then show ?thesis using T2 [OF kb] h high [of "lo + (i + 1)"] by simp
      next
        case False
        then show ?thesis using T2 [OF kb] h high [of k] by simp
      qed
    qed
    have piv': "T2 (lo + numElems - 1) = pv"
      using T2 [of "lo + numElems - 1"] b j Suc.prems(1,2) piv by simp
    show ?thesis
      unfolding eq
      using Suc.hyps(1) [of "j + 1" "i + 1" st2] Suc.hyps(2) Suc.prems(1,2) j r2 low' high' piv'
      by (simp add: T2_def)
  qed
qed

lemma bind_result_Inr: "bind_result (Some (Inr a)) f = f a"
  by (simp add: bind_result_def)

lemma ordered_small: "hi \<le> lo + 1 \<Longrightarrow> ordered lt m it lo hi"
  by (auto simp: ordered_def)

lemma ordered_outside:
  assumes fits: "sorter_fits srt it n" and r: "rearranged srt it lo' hi' m m'"
    and b: "0 \<le> lo" "hi \<le> n" "hi \<le> lo' \<or> hi' \<le> lo"
    and o: "ordered lt m it lo hi"
  shows "ordered lt m' it lo hi"
proof -
  have "tupleAt m' it k = tupleAt m it k" if "lo \<le> k" "k < hi" for k
    using rearranged_outside [OF fits r, of k] that b by auto
  then show ?thesis using o by (simp add: ordered_def)
qed

lemma all_rearranged:
  assumes r: "rearranged srt it lo hi m m'"
    and p: "\<And>k. lo \<le> k \<Longrightarrow> k < hi \<Longrightarrow> P (tupleAt m it k)"
    and k: "lo \<le> k" "k < hi"
  shows "P (tupleAt m' it k)"
  using rearranged_elem [OF r k] p by auto

lemma join_ordered:
  assumes swo: "strict_weak_order lt"
    and left: "\<And>k. lo \<le> k \<Longrightarrow> k < p \<Longrightarrow> lt (tupleAt m it k) pv"
    and mid: "\<not> lt (tupleAt m it p) pv" "\<not> lt pv (tupleAt m it p)"
    and right: "\<And>k. p < k \<Longrightarrow> k < hi \<Longrightarrow> \<not> lt (tupleAt m it k) pv"
    and ol: "ordered lt m it lo p" and orr: "ordered lt m it (p + 1) hi"
  shows "ordered lt m it lo hi"
proof -
  define T where "T = tupleAt m it"
  have "\<not> lt (T k') (T k)" if kk: "lo \<le> k" "k < k'" "k' < hi" for k k'
  proof -
    consider (ll) "k' < p" | (lm) "k < p" "k' = p" | (lr) "k < p" "p < k'"
      | (mr) "k = p" | (rr) "p < k"
      using kk by force
    then show ?thesis
    proof cases
      case ll
      then show ?thesis using ol kk by (simp add: ordered_def T_def)
    next
      case lm
      have "lt (T k) pv" using left [of k] kk lm by (simp add: T_def)
      then show ?thesis
        using swo_trans [OF swo, of "T p" "T k" pv] mid lm by (auto simp: T_def)
    next
      case lr
      have "lt (T k) pv" using left [of k] kk lr by (simp add: T_def)
      moreover have "\<not> lt (T k') pv" using right [of k'] kk lr by (simp add: T_def)
      ultimately show ?thesis
        using swo_trans [OF swo, of "T k'" "T k" pv] by blast
    next
      case mr
      have "\<not> lt (T k') pv" using right [of k'] kk mr by (simp add: T_def)
      then show ?thesis
        using swo_negtrans [OF swo, of "T k'" "T p" pv] mid mr by (auto simp: T_def)
    next
      case rr
      then show ?thesis using orr kk by (simp add: ordered_def T_def)
    qed
  qed
  then show ?thesis by (simp add: ordered_def T_def)
qed

lemma pivot_placed:
  assumes fits: "sorter_fits srt it n" and swo: "strict_weak_order lt"
    and cmp: "compares_as lt srt it n m0" and r: "rearranged srt it 0 n m0 (mem st1)"
    and b: "0 \<le> lo" "hi \<le> n" "lo \<le> p" "p < hi"
    and low: "\<And>k. lo \<le> k \<Longrightarrow> k < p \<Longrightarrow> lt (tupleAt (mem st1) it k) pv"
    and high: "\<And>k. p \<le> k \<Longrightarrow> k < hi - 1 \<Longrightarrow> \<not> lt (tupleAt (mem st1) it k) pv"
    and piv: "tupleAt (mem st1) it (hi - 1) = pv"
    and c: "compare srt st1 (iter_index it (hi - 1)) (iter_index it p) = (c, st2)"
    and st3: "st3 = (if c then swap srt st2 (iter_index it (hi - 1)) (iter_index it p) else st2)"
  shows "(\<forall>k. lo \<le> k \<and> k < p \<longrightarrow> lt (tupleAt (mem st3) it k) pv)
       \<and> \<not> lt (tupleAt (mem st3) it p) pv \<and> \<not> lt pv (tupleAt (mem st3) it p)
       \<and> (\<forall>k. p < k \<and> k < hi \<longrightarrow> \<not> lt (tupleAt (mem st3) it k) pv)"
proof -
  define T where "T = tupleAt (mem st1) it"
  have m2: "mem st2 = mem st1" using compare_mem [of srt st1] c by (metis snd_conv)
  have cv: "c = lt pv (T p)"
    using compare_less [OF cmp r, of "hi - 1" p] c b piv by (simp add: T_def)
  show ?thesis
  proof (cases c)
    case False
    then have m3: "mem st3 = mem st1" using st3 m2 by simp
    have "\<not> lt (T p) pv"
    proof (cases "p = hi - 1")
      case True
      then show ?thesis using piv swo_irrefl [OF swo] by (simp add: T_def)
    next
      case False
      then show ?thesis using high [of p] b by (simp add: T_def)
    qed
    moreover have "\<not> lt (T k) pv" if "p < k" "k < hi" for k
    proof (cases "k = hi - 1")
      case True
      then show ?thesis using piv swo_irrefl [OF swo] by (simp add: T_def)
    next
      case False
      then show ?thesis using high [of k] that by (simp add: T_def)
    qed
    ultimately show ?thesis
      using low False cv by (simp add: m3 T_def)
  next
    case True
    define T3 where "T3 = tupleAt (mem st3) it"
    have T3: "T3 k = (if k = hi - 1 then T p else if k = p then T (hi - 1) else T k)"
      if "0 \<le> k" "k < n" for k
      using swap_tupleAt [OF fits _ _ _ _ that, of "hi - 1" p st2] b True st3
      by (simp add: T3_def T_def m2)
    have pq: "lt pv (T p)" using True cv by simp
    then have npq: "\<not> lt (T p) pv" using swo_asym [OF swo] by blast
    have ne: "p \<noteq> hi - 1" using pq piv swo_irrefl [OF swo] by (auto simp: T_def)
    have l3: "lt (T3 k) pv" if "lo \<le> k" "k < p" for k
      using T3 [of k] low [of k] that b by (simp add: T_def)
    have m3: "T3 p = pv" using T3 [of p] b ne piv by (simp add: T_def)
    have r3: "\<not> lt (T3 k) pv" if "p < k" "k < hi" for k
    proof (cases "k = hi - 1")
      case True
      then show ?thesis using T3 [of k] that b npq by simp
    next
      case False
      then show ?thesis using T3 [of k] high [of k] that b by (simp add: T_def)
    qed
    show ?thesis
      using l3 m3 r3 swo_irrefl [OF swo] by (simp add: T3_def)
  qed
qed

lemma insertionSort_result:
  assumes fits: "sorter_fits srt it n" and b: "0 \<le> lo" "lo + N \<le> n" "1 < N"
  shows "\<exists>st'. insertionSort N srt st (iter_plus it lo) = Inr st' \<and>
     rearranged srt it lo (lo + N) (mem st) (mem st') \<and>
     (strict_weak_order lt \<and> compares_as lt srt it n m0 \<and> rearranged srt it 0 n m0 (mem st)
        \<longrightarrow> ordered lt (mem st') it lo (lo + N))"
proof -
  let ?st' = "insertionSort_for N srt st (iter_plus it lo) 0"
  have "insertionSort N srt st (iter_plus it lo) = Inr ?st'"
    using b by (simp add: insertionSort_def)
  moreover have "rearranged srt it lo (lo + N) (mem st) (mem ?st')"
    using for_rearranged [OF fits b(1), of "lo + N" 0 N st] b by simp
  moreover have "ordered lt (mem ?st') it lo (lo + N)"
    if "strict_weak_order lt" "compares_as lt srt it n m0" "rearranged srt it 0 n m0 (mem st)"
    using for_ordered [OF fits that(1,2) b(1,2), of 0 st] that(3) b
    by (simp add: ordered_small)
  ultimately show ?thesis by blast
qed

lemma sorter_sort_small:
  assumes "iter_diff endIt beginIt = Inr numElems" "numElems = 0 \<or> numElems = 1"
  shows "sorter_sort srt st beginIt endIt = Some (Inr st)"
  using assms(2) by (subst sorter_sort.simps) (simp add: assms(1))

lemma sorter_sort_insertion:
  assumes "iter_diff endIt beginIt = Inr numElems" "numElems = 2 \<or> numElems = 3 \<or> numElems = 4"
  shows "sorter_sort srt st beginIt endIt = Some (insertionSort numElems srt st beginIt)"
  using assms(2) by (subst sorter_sort.simps) (auto simp: assms(1))

lemma sorter_sort_quick:
  assumes "iter_diff endIt beginIt = Inr numElems" "5 \<le> numElems"
    and "partition_for srt st beginIt (iter_minus endIt 1) numElems (- 1) 0 = (st1, i0)"
    and "compare srt st1 (iter_deref (iter_minus endIt 1)) (iter_index beginIt (i0 + 1)) = (c, st2)"
    and "st3 = (if c then swap srt st2 (iter_deref (iter_minus endIt 1)) (iter_index beginIt (i0 + 1)) else st2)"
    and "pivot = iter_plus beginIt (i0 + 1)"
    and "iter_diff pivot beginIt = Inr sizeLeft"
    and "iter_diff endIt (iter_plus pivot 1) = Inr sizeRight"
  shows "sorter_sort srt st beginIt endIt =
     (if sizeLeft > sizeRight
      then bind_result (sorter_sort srt st3 (iter_plus pivot 1) endIt)
             (\<lambda>st4. sorter_sort srt st4 beginIt pivot)
      else bind_result (sorter_sort srt st3 beginIt pivot)
             (\<lambda>st4. sorter_sort srt st4 (iter_plus pivot 1) endIt))"
proof -
  have n: "\<not> (numElems = 0 \<or> numElems = 1)" "numElems \<noteq> 2" "numElems \<noteq> 3" "numElems \<noteq> 4"
    using assms(2) by auto
  show ?thesis
    apply (subst sorter_sort.simps)
    apply (simp only: assms(1) sum.case n if_False Let_def assms(3) prod.case assms(4))
    apply (simp only: assms(5) [symmetric] assms(6) [symmetric])
    apply (simp only: assms(7) assms(8) sum.case)
    done
qed

lemma rearranged_whole:
  assumes "sorter_fits srt it n" "rearranged srt it lo hi m m'" "0 \<le> lo" "lo \<le> hi" "hi \<le> n"
    and "rearranged srt it 0 n m0 m"
  shows "rearranged srt it 0 n m0 m'"
  using rearranged_trans [OF assms(6)] rearranged_widen [OF assms(1,2), of 0 n] assms(3,4,5)
  by simp

lemma sort_main:
  assumes fits: "sorter_fits srt it n"
  shows "0 \<le> lo \<Longrightarrow> lo \<le> hi \<Longrightarrow> hi \<le> n \<Longrightarrow>
     \<exists>st'. sorter_sort srt st (iter_plus it lo) (iter_plus it hi) = Some (Inr st') \<and>
       rearranged srt it lo hi (mem st) (mem st') \<and>
       (strict_weak_order lt \<and> compares_as lt srt it n m0 \<and> rearranged srt it 0 n m0 (mem st)
          \<longrightarrow> ordered lt (mem st') it lo hi)"
proof (induction "nat (hi - lo)" arbitrary: lo hi st rule: less_induct)
  case less
  define d where "d = hi - lo"
  have L: "m_tupleLength it \<noteq> 0" using fits by (simp add: sorter_fits_def)
  have diff: "iter_diff (iter_plus it hi) (iter_plus it lo) = Inr d"
    using iter_diff_plus [OF L] by (simp add: d_def)
  have d0: "0 \<le> d" using less.prems by (simp add: d_def)
  have hi: "hi = lo + d" by (simp add: d_def)
  consider (tiny) "d = 0 \<or> d = 1" | (ins) "d = 2 \<or> d = 3 \<or> d = 4" | (quick) "5 \<le> d"
    using d0 by linarith
  then show ?case
  proof cases
    case tiny
    have "sorter_sort srt st (iter_plus it lo) (iter_plus it hi) = Some (Inr st)"
      using sorter_sort_small [OF diff tiny] .
    moreover have "ordered lt (mem st) it lo hi"
      using tiny by (intro ordered_small) (auto simp: hi)
    ultimately show ?thesis by (simp add: rearranged_refl)
  next
    case ins
    have "sorter_sort srt st (iter_plus it lo) (iter_plus it hi) = Some (insertionSort d srt st (iter_plus it lo))"
      using sorter_sort_insertion [OF diff ins] .
    then show ?thesis
      using insertionSort_result [OF fits less.prems(1), of d st lt m0] ins less.prems(3)
      by (auto simp: hi)
  next
    case quick
    obtain st1 i0 where part: "partition_for srt st (iter_plus it lo) (iter_plus it (hi - 1)) d (- 1) 0 = (st1, i0)"
      by (cases "partition_for srt st (iter_plus it lo) (iter_plus it (hi - 1)) d (- 1) 0")
    define p where "p = lo + (i0 + 1)"
    obtain c st2 where cmp1: "compare srt st1 (iter_index it (hi - 1)) (iter_index it p) = (c, st2)"
      by (cases "compare srt st1 (iter_index it (hi - 1)) (iter_index it p)")
    define st3 where "st3 = (if c then swap srt st2 (iter_index it (hi - 1)) (iter_index it p) else st2)"
    have pr: "rearranged srt it lo hi (mem st) (mem st1) \<and> - 1 \<le> i0 \<and> i0 < d - 1"
      using partition_rearranged [OF fits less.prems(1,3), of d "- 1" 0 st "iter_plus it (hi - 1)"] quick part
      by (simp add: hi)
    have pb: "lo \<le> p" "p < hi" using pr by (simp_all add: p_def hi)
    have m2: "mem st2 = mem st1" using compare_mem [of srt st1] cmp1 by (metis snd_conv)
    have r13: "rearranged srt it lo hi (mem st1) (mem st3)"
      using swap_rearranged [OF fits less.prems(1,3), of "hi - 1" p st2] pb m2
      by (simp add: st3_def rearranged_refl)
    have r03: "rearranged srt it lo hi (mem st) (mem st3)"
      using rearranged_trans pr r13 by blast
    have e: "iter_minus (iter_plus it hi) 1 = iter_plus it (hi - 1)"
      "iter_deref (iter_plus it (hi - 1)) = iter_index it (hi - 1)"
      "iter_index (iter_plus it lo) (i0 + 1) = iter_index it p"
      "iter_plus (iter_plus it lo) (i0 + 1) = iter_plus it p"
      "iter_plus (iter_plus it p) 1 = iter_plus it (p + 1)"
      by (simp_all add: iter_minus_plus iter_deref_plus iter_index_plus iter_plus_plus p_def)
    have unfold: "sorter_sort srt st (iter_plus it lo) (iter_plus it hi) =
        (if p - lo > hi - (p + 1)
         then bind_result (sorter_sort srt st3 (iter_plus it (p + 1)) (iter_plus it hi))
                (\<lambda>st4. sorter_sort srt st4 (iter_plus it lo) (iter_plus it p))
         else bind_result (sorter_sort srt st3 (iter_plus it lo) (iter_plus it p))
                (\<lambda>st4. sorter_sort srt st4 (iter_plus it (p + 1)) (iter_plus it hi)))"
    proof -
      have a3: "partition_for srt st (iter_plus it lo) (iter_minus (iter_plus it hi) 1) d (- 1) 0 = (st1, i0)"
        using part by (simp only: e)
      have a4: "compare srt st1 (iter_deref (iter_minus (iter_plus it hi) 1)) (iter_index (iter_plus it lo) (i0 + 1)) = (c, st2)"
        using cmp1 by (simp only: e)
      have a5: "st3 = (if c then swap srt st2 (iter_deref (iter_minus (iter_plus it hi) 1))
            (iter_index (iter_plus it lo) (i0 + 1)) else st2)"
        using st3_def by (simp only: e)
      have a6: "iter_plus it p = iter_plus (iter_plus it lo) (i0 + 1)"
        by (simp only: e)
      have a7: "iter_diff (iter_plus it p) (iter_plus it lo) = Inr (p - lo)"
        by (rule iter_diff_plus [OF L])
      have a8: "iter_diff (iter_plus it hi) (iter_plus (iter_plus it p) 1) = Inr (hi - (p + 1))"
        unfolding e by (rule iter_diff_plus [OF L])
      show ?thesis
        using sorter_sort_quick [OF diff quick a3 a4 a5 a6 a7 a8] by (simp only: e)
    qed
    text \<open>The facts about the partition that hold when the comparator is an ordering.\<close>
    have placed: "(\<forall>k. lo \<le> k \<and> k < p \<longrightarrow> lt (tupleAt (mem st3) it k) pv)
         \<and> \<not> lt (tupleAt (mem st3) it p) pv \<and> \<not> lt pv (tupleAt (mem st3) it p)
         \<and> (\<forall>k. p < k \<and> k < hi \<longrightarrow> \<not> lt (tupleAt (mem st3) it k) pv)"
      if ctx: "strict_weak_order lt" "compares_as lt srt it n m0" "rearranged srt it 0 n m0 (mem st)"
        and pv: "pv = tupleAt (mem st) it (hi - 1)" for pv
    proof -
      have hd: "hi - 1 = lo + d - 1" by (simp add: d_def)
      have pre: "lo + d \<le> n" "iter_plus it (hi - 1) = iter_plus it (lo + d - 1)"
        "- 1 \<le> (- 1 :: int)" "(- 1 :: int) < 0" "0 \<le> d - 1"
        "\<forall>k. lo \<le> k \<and> k \<le> lo + - 1 \<longrightarrow> lt (tupleAt (mem st) it k) pv"
        "\<forall>k. lo + - 1 < k \<and> k < lo + 0 \<longrightarrow> \<not> lt (tupleAt (mem st) it k) pv"
        "tupleAt (mem st) it (lo + d - 1) = pv"
        using less.prems(3) quick pv by (auto simp: d_def)
      have po: "(\<forall>k. lo \<le> k \<and> k \<le> lo + i0 \<longrightarrow> lt (tupleAt (mem st1) it k) pv) \<and>
          (\<forall>k. lo + i0 < k \<and> k < lo + d - 1 \<longrightarrow> \<not> lt (tupleAt (mem st1) it k) pv) \<and>
          tupleAt (mem st1) it (lo + d - 1) = pv"
        using partition_ordered [OF fits ctx(1,2) less.prems(1) pre(1,2,3,4,5) ctx(3) pre(6,7,8)]
        unfolding part prod.case .
      have r1: "rearranged srt it 0 n m0 (mem st1)"
        using rearranged_whole [OF fits _ less.prems ctx(3)] pr by simp
      show ?thesis
      proof (rule pivot_placed [OF fits ctx(1,2) r1 less.prems(1,3) pb _ _ _ cmp1 st3_def])
        show "lt (tupleAt (mem st1) it k) pv" if "lo \<le> k" "k < p" for k
          using po that by (simp add: p_def)
        show "\<not> lt (tupleAt (mem st1) it k) pv" if "p \<le> k" "k < hi - 1" for k
          using po that unfolding hd by (simp add: p_def)
        show "tupleAt (mem st1) it (hi - 1) = pv"
          using po unfolding hd by simp
      qed
    qed
    have r3n: "rearranged srt it 0 n m0 (mem st3)" if "rearranged srt it 0 n m0 (mem st)"
      using rearranged_whole [OF fits r03 less.prems that] .
    show ?thesis
    proof (cases "p - lo > hi - (p + 1)")
      case True
      obtain st4 where s4: "sorter_sort srt st3 (iter_plus it (p + 1)) (iter_plus it hi) = Some (Inr st4)"
        and r4: "rearranged srt it (p + 1) hi (mem st3) (mem st4)"
        and o4: "strict_weak_order lt \<and> compares_as lt srt it n m0 \<and> rearranged srt it 0 n m0 (mem st3)
          \<longrightarrow> ordered lt (mem st4) it (p + 1) hi"
      proof -
        have "nat (hi - (p + 1)) < nat (hi - lo)" "0 \<le> p + 1" "p + 1 \<le> hi"
          using pb less.prems by simp_all
        from less.hyps [OF this less.prems(3), of st3] that show ?thesis by blast
      qed
      obtain st5 where s5: "sorter_sort srt st4 (iter_plus it lo) (iter_plus it p) = Some (Inr st5)"
        and r5: "rearranged srt it lo p (mem st4) (mem st5)"
        and o5: "strict_weak_order lt \<and> compares_as lt srt it n m0 \<and> rearranged srt it 0 n m0 (mem st4)
          \<longrightarrow> ordered lt (mem st5) it lo p"
      proof -
        have "nat (p - lo) < nat (hi - lo)" "p \<le> n"
          using pb less.prems by simp_all
        from less.hyps [OF this(1) less.prems(1) pb(1) this(2), of st4] that show ?thesis by blast
      qed
      have res: "sorter_sort srt st (iter_plus it lo) (iter_plus it hi) = Some (Inr st5)"
        using True by (simp add: unfold s4 s5 bind_result_Inr)
      have w4: "rearranged srt it lo hi (mem st3) (mem st4)"
        using rearranged_widen [OF fits r4, of lo hi] pb less.prems by simp
      have w5: "rearranged srt it lo hi (mem st4) (mem st5)"
        using rearranged_widen [OF fits r5, of lo hi] pb less.prems by simp
      have rr: "rearranged srt it lo hi (mem st) (mem st5)"
        using rearranged_trans [OF r03] rearranged_trans [OF w4 w5] by blast
      have "ordered lt (mem st5) it lo hi"
        if ctx: "strict_weak_order lt" "compares_as lt srt it n m0" "rearranged srt it 0 n m0 (mem st)"
      proof -
        define pv where "pv = tupleAt (mem st) it (hi - 1)"
        note pl = placed [OF ctx pv_def]
        have n3: "rearranged srt it 0 n m0 (mem st3)" using r3n ctx(3) by simp
        have n4: "rearranged srt it 0 n m0 (mem st4)"
          using rearranged_whole [OF fits w4 less.prems n3] .
        have o4': "ordered lt (mem st4) it (p + 1) hi" using o4 ctx n3 by simp
        have o5': "ordered lt (mem st5) it lo p" using o5 ctx n4 by simp
        have out4: "tupleAt (mem st4) it k = tupleAt (mem st3) it k" if "lo \<le> k" "k \<le> p" for k
          using rearranged_outside [OF fits r4, of k] that pb less.prems by simp
        have out5: "tupleAt (mem st5) it k = tupleAt (mem st4) it k" if "p \<le> k" "k < hi" for k
          using rearranged_outside [OF fits r5, of k] that pb less.prems by simp
        show ?thesis
        proof (rule join_ordered [OF ctx(1), of lo p _ _ pv hi])
          show "lt (tupleAt (mem st5) it k) pv" if "lo \<le> k" "k < p" for k
          proof (rule all_rearranged [OF r5 _ that])
            show "lt (tupleAt (mem st4) it k) pv" if "lo \<le> k" "k < p" for k
              using out4 [of k] pl that by simp
          qed
          show "\<not> lt (tupleAt (mem st5) it p) pv" "\<not> lt pv (tupleAt (mem st5) it p)"
            using out5 [of p] out4 [of p] pl pb by simp_all
          show "\<not> lt (tupleAt (mem st5) it k) pv" if "p < k" "k < hi" for k
          proof -
            have "\<not> lt (tupleAt (mem st4) it k) pv"
              by (rule all_rearranged [OF r4, of "\<lambda>t. \<not> lt t pv"]) (use pl that in auto)
            then show ?thesis using out5 [of k] that by simp
          qed
          show "ordered lt (mem st5) it lo p" by (rule o5')
          show "ordered lt (mem st5) it (p + 1) hi"
            using ordered_outside [OF fits r5 _ _ _ o4'] pb less.prems by simp
        qed
      qed
      with res rr show ?thesis by blast
    next
      case False
      obtain st4 where s4: "sorter_sort srt st3 (iter_plus it lo) (iter_plus it p) = Some (Inr st4)"
        and r4: "rearranged srt it lo p (mem st3) (mem st4)"
        and o4: "strict_weak_order lt \<and> compares_as lt srt it n m0 \<and> rearranged srt it 0 n m0 (mem st3)
          \<longrightarrow> ordered lt (mem st4) it lo p"
      proof -
        have "nat (p - lo) < nat (hi - lo)" "p \<le> n"
          using pb less.prems by simp_all
        from less.hyps [OF this(1) less.prems(1) pb(1) this(2), of st3] that show ?thesis by blast
      qed
      obtain st5 where s5: "sorter_sort srt st4 (iter_plus it (p + 1)) (iter_plus it hi) = Some (Inr st5)"
        and r5: "rearranged srt it (p + 1) hi (mem st4) (mem st5)"
        and o5: "strict_weak_order lt \<and> compares_as lt srt it n m0 \<and> rearranged srt it 0 n m0 (mem st4)
          \<longrightarrow> ordered lt (mem st5) it (p + 1) hi"
      proof -
        have "nat (hi - (p + 1)) < nat (hi - lo)" "0 \<le> p + 1" "p + 1 \<le> hi"
          using pb less.prems by simp_all
        from less.hyps [OF this less.prems(3), of st4] that show ?thesis by blast
      qed
      have res: "sorter_sort srt st (iter_plus it lo) (iter_plus it hi) = Some (Inr st5)"
        using False by (simp add: unfold s4 s5 bind_result_Inr)
      have w4: "rearranged srt it lo hi (mem st3) (mem st4)"
        using rearranged_widen [OF fits r4, of lo hi] pb less.prems by simp
      have w5: "rearranged srt it lo hi (mem st4) (mem st5)"
        using rearranged_widen [OF fits r5, of lo hi] pb less.prems by simp
      have rr: "rearranged srt it lo hi (mem st) (mem st5)"
        using rearranged_trans [OF r03] rearranged_trans [OF w4 w5] by blast
      have "ordered lt (mem st5) it lo hi"
        if ctx: "strict_weak_order lt" "compares_as lt srt it n m0" "rearranged srt it 0 n m0 (mem st)"
      proof -
        define pv where "pv = tupleAt (mem st) it (hi - 1)"
        note pl = placed [OF ctx pv_def]
        have n3: "rearranged srt it 0 n m0 (mem st3)" using r3n ctx(3) by simp
        have n4: "rearranged srt it 0 n m0 (mem st4)"
          using rearranged_whole [OF fits w4 less.prems n3] .
        have o4': "ordered lt (mem st4) it lo p" using o4 ctx n3 by simp
        have o5': "ordered lt (mem st5) it (p + 1) hi" using o5 ctx n4 by simp
        have out4: "tupleAt (mem st4) it k = tupleAt (mem st3) it k" if "p \<le> k" "k < hi" for k
          using rearranged_outside [OF fits r4, of k] that pb less.prems by simp
        have out5: "tupleAt (mem st5) it k = tupleAt (mem st4) it k" if "lo \<le> k" "k \<le> p" for k
          using rearranged_outside [OF fits r5, of k] that pb less.prems by simp
        show ?thesis
        proof (rule join_ordered [OF ctx(1), of lo p _ _ pv hi])
          show "lt (tupleAt (mem st5) it k) pv" if "lo \<le> k" "k < p" for k
          proof -
            have "lt (tupleAt (mem st4) it k) pv"
              by (rule all_rearranged [OF r4, of "\<lambda>t. lt t pv"]) (use pl that in auto)
            then show ?thesis using out5 [of k] that by simp
          qed
          show "\<not> lt (tupleAt (mem st5) it p) pv" "\<not> lt pv (tupleAt (mem st5) it p)"
            using out5 [of p] out4 [of p] pl pb by simp_all
          show "\<not> lt (tupleAt (mem st5) it k) pv" if "p < k" "k < hi" for k
          proof (rule all_rearranged [OF r5, of "\<lambda>t. \<not> lt t pv"])
            show "\<not> lt (tupleAt (mem st4) it k) pv" if "p + 1 \<le> k" "k < hi" for k
              using out4 [of k] pl that by simp
          qed (use that in auto)
          show "ordered lt (mem st5) it lo p"
            using ordered_outside [OF fits r5 _ _ _ o4'] pb less.prems by simp
          show "ordered lt (mem st5) it (p + 1) hi" by (rule o5')
        qed
      qed
      with res rr show ?thesis by blast
    qed
  qed
qed

lemma block_end_plus:
  "block_invariant blk \<Longrightarrow> block_end blk = iter_plus (block_begin blk) (activeTupleCount blk)"
  by (simp add: block_invariant_def block_end_def block_begin_def LttBlockIterator_schema_def
      iter_plus_def iter_add_assign_def address_of_def activeTupleCount_def)

lemma block_fits:
  assumes inv: "block_invariant blk" and srt: "sorter_for srt blk"
  shows "sorter_fits srt (block_begin blk) (activeTupleCount blk)"
proof -
  define L where "L = tupleLength (m_schema blk) + TUPLE_HEADER_SIZE"
  have L: "0 < L" using inv by (simp add: L_def block_invariant_def TUPLE_HEADER_SIZE_def)
  have len: "m_tupleLength (block_begin blk) = L" "m_tupleAddress (block_begin blk) = m_storage blk"
    by (simp_all add: block_begin_def LttBlockIterator_schema_def L_def address_of_def)
  have tl: "tt_tupleLength (srt_tempTuple srt) = L"
    using srt by (simp add: sorter_for_def tt_tupleLength_def L_def)
  have "m_storage blk + m_activeTupleCount blk * L \<le> m_storage blk + BLOCK_SIZE_IN_BYTES"
    using inv by (simp add: block_invariant_def L_def)
  then show ?thesis
    using L inv srt tl
    by (auto simp: sorter_fits_def len activeTupleCount_def block_invariant_def sorter_for_def)
qed

lemma block_sort:
  assumes inv: "block_invariant blk" and srt: "sorter_for srt blk"
  shows "\<exists>st'. sorter_sort srt st (block_begin blk) (block_end blk) = Some (Inr st') \<and>
       rearranged srt (block_begin blk) 0 (activeTupleCount blk) (mem st) (mem st') \<and>
       (strict_weak_order lt \<and> compares_as lt srt (block_begin blk) (activeTupleCount blk) (mem st)
          \<longrightarrow> ordered lt (mem st') (block_begin blk) 0 (activeTupleCount blk))"
proof -
  have n: "0 \<le> activeTupleCount blk"
    using inv by (simp add: block_invariant_def activeTupleCount_def)
  have z: "iter_plus (block_begin blk) 0 = block_begin blk"
    by (simp add: iter_plus_def iter_add_assign_def)
  show ?thesis
    using sort_main [OF block_fits [OF inv srt] order_refl n order_refl, of st lt "mem st"]
    by (simp add: z block_end_plus [OF inv] rearranged_refl)
qed

subsection \<open>The example block\<close>

lemma example_block_invariant: "block_invariant example_block"
  by (simp add: block_invariant_def example_block_def example_schema_def isResident_def
      TUPLE_HEADER_SIZE_def BLOCK_SIZE_IN_BYTES_def)

lemma example_sorter_for: "sorter_for example_sorter example_block"
  by (simp add: sorter_for_def example_sorter_def LTTBlockSorter_new_def example_block_def
      toTableTuple_def tt_address_def tt_tupleLength_def example_schema_def TUPLE_HEADER_SIZE_def)

lemma example_order: "strict_weak_order (\<lambda>x y :: byte list. x ! 1 < y ! 1)"
  by (auto simp: strict_weak_order_def)

lemma example_begin: "block_begin example_block = \<lparr>m_tupleLength = 2, m_tupleAddress = 4096\<rparr>"
  by (simp add: block_begin_def example_block_def example_schema_def LttBlockIterator_schema_def
      address_of_def TUPLE_HEADER_SIZE_def)

lemma example_compares:
  "compares_as (\<lambda>x y. x ! 1 < y ! 1) example_sorter (block_begin example_block) n m0"
  by (simp add: compares_as_def example_sorter_def LTTBlockSorter_new_def first_byte_less_def
      toTableTuple_def tupleAt_def tupleBytes_def example_begin upto_rec1)

section \<open>The claims about the sorter\<close>

text \<open>
  Claim C1. Let a block satisfy the block invariants, let the sorter be made for it,
  and let its comparator decide by a strict weak ordering \<open>lt\<close> on the tuples of the
  block. Then sorting \<open>begin()..end()\<close> returns, and in the resulting memory no tuple
  is before its predecessor: for all \<open>0 \<le> i < active_tuple_count - 1\<close>, the comparator
  answers false on \<open>(block[i+1], block[i])\<close>.
\<close>

theorem sort_orders_block:
  assumes inv: "block_invariant blk" and srt: "sorter_for srt blk"
    and swo: "strict_weak_order lt"
    and cmp: "compares_as lt srt (block_begin blk) (activeTupleCount blk) (mem st)"
  shows "\<exists>st'. sorter_sort srt st (block_begin blk) (block_end blk) = Some (Inr st') \<and>
     (\<forall>i. 0 \<le> i \<and> i < activeTupleCount blk - 1 \<longrightarrow>
        \<not> srt_compare srt (mem st')
            (toTableTuple (iter_index (block_begin blk) (i + 1)) (srt_schema srt))
            (toTableTuple (iter_index (block_begin blk) i) (srt_schema srt)))"
proof -
  obtain st' where s: "sorter_sort srt st (block_begin blk) (block_end blk) = Some (Inr st')"
    and r: "rearranged srt (block_begin blk) 0 (activeTupleCount blk) (mem st) (mem st')"
    and o: "ordered lt (mem st') (block_begin blk) 0 (activeTupleCount blk)"
    using block_sort [OF inv srt, of st lt] swo cmp by blast
  have "\<not> srt_compare srt (mem st')
            (toTableTuple (iter_index (block_begin blk) (i + 1)) (srt_schema srt))
            (toTableTuple (iter_index (block_begin blk) i) (srt_schema srt))"
    if "0 \<le> i" "i < activeTupleCount blk - 1" for i
  proof -
    have "srt_compare srt (mem st')
            (toTableTuple (iter_index (block_begin blk) (i + 1)) (srt_schema srt))
            (toTableTuple (iter_index (block_begin blk) i) (srt_schema srt))
        = lt (tupleAt (mem st') (block_begin blk) (i + 1)) (tupleAt (mem st') (block_begin blk) i)"
      using cmp r that unfolding compares_as_def by simp
    moreover have "\<not> lt (tupleAt (mem st') (block_begin blk) (i + 1)) (tupleAt (mem st') (block_begin blk) i)"
      using o that unfolding ordered_def by simp
    ultimately show ?thesis by simp
  qed
  with s show ?thesis by blast
qed

theorem sort_orders_block_witness:
  "\<exists>st'. sorter_sort example_sorter example_state (block_begin example_block) (block_end example_block)
       = Some (Inr st')
     \<and> \<not> first_byte_less (mem st') (toTableTuple 4098 example_schema) (toTableTuple 4096 example_schema)
     \<and> \<not> first_byte_less (mem st') (toTableTuple 4100 example_schema) (toTableTuple 4098 example_schema)
     \<and> \<not> first_byte_less (mem st') (toTableTuple 4102 example_schema) (toTableTuple 4100 example_schema)
     \<and> \<not> first_byte_less (mem st') (toTableTuple 4104 example_schema) (toTableTuple 4102 example_schema)"
proof -
  have n: "activeTupleCount example_block = 5"
    by (simp add: activeTupleCount_def example_block_def)
  have c: "srt_compare example_sorter = first_byte_less" "srt_schema example_sorter = example_schema"
    by (simp_all add: example_sorter_def LTTBlockSorter_new_def)
  obtain st' where s: "sorter_sort example_sorter example_state (block_begin example_block)
        (block_end example_block) = Some (Inr st')"
    and o: "\<forall>i. 0 \<le> i \<and> i < activeTupleCount example_block - 1 \<longrightarrow>
        \<not> srt_compare example_sorter (mem st')
            (toTableTuple (iter_index (block_begin example_block) (i + 1)) (srt_schema example_sorter))
            (toTableTuple (iter_index (block_begin example_block) i) (srt_schema example_sorter))"
    using sort_orders_block [OF example_block_invariant example_sorter_for example_order example_compares]
    by blast
  from o [rule_format, of 0] o [rule_format, of 1] o [rule_format, of 2] o [rule_format, of 3] s
  show ?thesis
    by (simp add: n c example_begin iter_index_eq)
qed

text \<open>
  Claim C2. For every block that satisfies the block invariants and every comparator
  (no assumption is made on it), sorting \<open>begin()..end()\<close> with a sorter made for the
  block returns, the multiset of the tuples of the block afterwards is the multiset
  before, and the number of tuples is still \<open>active_tuple_count\<close>.
\<close>

theorem sort_permutes_block:
  assumes inv: "block_invariant blk" and srt: "sorter_for srt blk"
  shows "\<exists>st'. sorter_sort srt st (block_begin blk) (block_end blk) = Some (Inr st') \<and>
     mset (tuplesOf (mem st') (block_begin blk) 0 (activeTupleCount blk))
       = mset (tuplesOf (mem st) (block_begin blk) 0 (activeTupleCount blk)) \<and>
     int (length (tuplesOf (mem st') (block_begin blk) 0 (activeTupleCount blk))) = activeTupleCount blk"
proof -
  have n: "0 \<le> activeTupleCount blk"
    using inv by (simp add: block_invariant_def activeTupleCount_def)
  obtain st' where s: "sorter_sort srt st (block_begin blk) (block_end blk) = Some (Inr st')"
    and r: "rearranged srt (block_begin blk) 0 (activeTupleCount blk) (mem st) (mem st')"
    using block_sort [OF inv srt, of st "\<lambda>a b. False"] by blast
  have "int (length (tuplesOf (mem st') (block_begin blk) 0 (activeTupleCount blk))) = activeTupleCount blk"
    using n by (simp add: tuplesOf_def)
  with s r show ?thesis by (auto simp: rearranged_def)
qed

theorem sort_permutes_block_witness:
  "\<exists>st'. sorter_sort example_sorter example_state (block_begin example_block) (block_end example_block)
       = Some (Inr st')
     \<and> mset (tuplesOf (mem st') (block_begin example_block) 0 5)
         = {#[1, 3], [1, 1], [1, 4], [1, 1], [1, 2]#}
     \<and> length (tuplesOf (mem st') (block_begin example_block) 0 5) = 5"
proof -
  have n: "activeTupleCount example_block = 5"
    by (simp add: activeTupleCount_def example_block_def)
  have "tuplesOf (mem example_state) (block_begin example_block) 0 5
      = [[1, 3], [1, 1], [1, 4], [1, 1], [1, 2]]"
    by (simp add: tuplesOf_def tupleAt_def tupleBytes_def example_begin iter_index_eq upto_rec1
        example_state_def example_memory_def store_bytes_def)
  then show ?thesis
    using sort_permutes_block [OF example_block_invariant example_sorter_for, of example_state]
    by (simp add: n)
qed

lemma swap_writes_only:
  assumes "\<not> (t0 \<le> x \<and> x < t0 + tt_tupleLength (srt_tempTuple srt))"
    "\<not> (t1 \<le> x \<and> x < t1 + tt_tupleLength (srt_tempTuple srt))" "\<not> in_scratch srt x"
  shows "mem (swap srt st t0 t1) x = mem st x"
proof -
  have w: "memcpy m dst src len x = m x" if "\<not> (dst \<le> x \<and> x < dst + len)" for m dst src len
    using that by (auto simp: memcpy_def)
  have s: "\<not> (tt_address (srt_tempTuple srt) \<le> x
      \<and> x < tt_address (srt_tempTuple srt) + tt_tupleLength (srt_tempTuple srt))"
    using assms(3) by (simp add: in_scratch_def)
  show ?thesis
    by (simp add: swap_def Let_def w [OF assms(1)] w [OF assms(2)] w [OF s])
qed

lemma non_inlined_outside:
  assumes inv: "block_invariant blk" and srt: "sorter_for srt blk"
    and x: "m_nonInlinedInsertionPoint blk \<le> x" "x < m_storage blk + BLOCK_SIZE_IN_BYTES"
  shows "\<not> in_tuples (block_begin blk) 0 (activeTupleCount blk) x \<and> \<not> in_scratch srt x"
proof -
  have "iter_index (block_begin blk) (activeTupleCount blk) = m_tupleInsertionPoint blk"
    using inv
    by (simp add: iter_index_eq block_begin_def LttBlockIterator_schema_def address_of_def
        activeTupleCount_def block_invariant_def)
  moreover have "m_storage blk \<le> m_tupleInsertionPoint blk"
    using inv by (simp add: block_invariant_def TUPLE_HEADER_SIZE_def)
  ultimately show ?thesis
    using inv srt x
    by (auto simp: in_tuples_def in_scratch_def block_invariant_def sorter_for_def)
qed

text \<open>
  Claim C9. \<^verbatim>\<open>swap\<close> changes memory only within the two tuples it is given
  (\<^verbatim>\<open>tupleLength\<close> bytes each) and the scratch tuple, and on two tuples of a block it
  exchanges their raw bytes. Sorting a block (with any comparator) leaves every byte of
  the non-inlined region \<open>[non_inlined_insertion_point, storage + BLOCK_SIZE)\<close> as it
  was, and every tuple of the sorted block is, byte for byte, one of the tuples of the
  block before: the string refs in it are the ones it had, and the objects they point
  at are untouched.
\<close>

theorem sort_leaves_non_inlined_region:
  assumes inv: "block_invariant blk" and srt: "sorter_for srt blk"
  shows "(\<forall>s t0 t1 x.
            \<not> (t0 \<le> x \<and> x < t0 + tt_tupleLength (srt_tempTuple srt)) \<and>
            \<not> (t1 \<le> x \<and> x < t1 + tt_tupleLength (srt_tempTuple srt)) \<and> \<not> in_scratch srt x
            \<longrightarrow> mem (swap srt s t0 t1) x = mem s x)
    \<and> (\<forall>s i j. 0 \<le> i \<and> i < activeTupleCount blk \<and> 0 \<le> j \<and> j < activeTupleCount blk \<longrightarrow>
          tupleAt (mem (swap srt s (iter_index (block_begin blk) i) (iter_index (block_begin blk) j)))
              (block_begin blk) i = tupleAt (mem s) (block_begin blk) j
          \<and> tupleAt (mem (swap srt s (iter_index (block_begin blk) i) (iter_index (block_begin blk) j)))
              (block_begin blk) j = tupleAt (mem s) (block_begin blk) i)
    \<and> (\<exists>st'. sorter_sort srt st (block_begin blk) (block_end blk) = Some (Inr st')
          \<and> (\<forall>x. m_nonInlinedInsertionPoint blk \<le> x \<and> x < m_storage blk + BLOCK_SIZE_IN_BYTES
                \<longrightarrow> mem st' x = mem st x)
          \<and> (\<forall>k. 0 \<le> k \<and> k < activeTupleCount blk \<longrightarrow>
                (\<exists>k'. 0 \<le> k' \<and> k' < activeTupleCount blk
                   \<and> tupleAt (mem st') (block_begin blk) k = tupleAt (mem st) (block_begin blk) k')))"
proof (intro conjI)
  show "\<forall>s t0 t1 x.
            \<not> (t0 \<le> x \<and> x < t0 + tt_tupleLength (srt_tempTuple srt)) \<and>
            \<not> (t1 \<le> x \<and> x < t1 + tt_tupleLength (srt_tempTuple srt)) \<and> \<not> in_scratch srt x
            \<longrightarrow> mem (swap srt s t0 t1) x = mem s x"
    using swap_writes_only by blast
next
  note fits = block_fits [OF inv srt]
  show "\<forall>s i j. 0 \<le> i \<and> i < activeTupleCount blk \<and> 0 \<le> j \<and> j < activeTupleCount blk \<longrightarrow>
          tupleAt (mem (swap srt s (iter_index (block_begin blk) i) (iter_index (block_begin blk) j)))
              (block_begin blk) i = tupleAt (mem s) (block_begin blk) j
          \<and> tupleAt (mem (swap srt s (iter_index (block_begin blk) i) (iter_index (block_begin blk) j)))
              (block_begin blk) j = tupleAt (mem s) (block_begin blk) i"
  proof (intro allI impI)
    fix s i j
    assume h: "0 \<le> i \<and> i < activeTupleCount blk \<and> 0 \<le> j \<and> j < activeTupleCount blk"
    show "tupleAt (mem (swap srt s (iter_index (block_begin blk) i) (iter_index (block_begin blk) j)))
              (block_begin blk) i = tupleAt (mem s) (block_begin blk) j
          \<and> tupleAt (mem (swap srt s (iter_index (block_begin blk) i) (iter_index (block_begin blk) j)))
              (block_begin blk) j = tupleAt (mem s) (block_begin blk) i"
      using swap_tupleAt [OF fits, of i j i s] swap_tupleAt [OF fits, of i j j s] h by auto
  qed
next
  obtain st' where s: "sorter_sort srt st (block_begin blk) (block_end blk) = Some (Inr st')"
    and r: "rearranged srt (block_begin blk) 0 (activeTupleCount blk) (mem st) (mem st')"
    using block_sort [OF inv srt, of st "\<lambda>a b. False"] by blast
  have frame: "mem st' x = mem st x"
    if "m_nonInlinedInsertionPoint blk \<le> x \<and> x < m_storage blk + BLOCK_SIZE_IN_BYTES" for x
    using non_inlined_outside [OF inv srt, of x] that r by (simp add: rearranged_def)
  have elem: "\<exists>k'. 0 \<le> k' \<and> k' < activeTupleCount blk
      \<and> tupleAt (mem st') (block_begin blk) k = tupleAt (mem st) (block_begin blk) k'"
    if "0 \<le> k \<and> k < activeTupleCount blk" for k
    using rearranged_elem [OF r, of k] that by simp
  from s frame elem
  show "\<exists>st'. sorter_sort srt st (block_begin blk) (block_end blk) = Some (Inr st')
          \<and> (\<forall>x. m_nonInlinedInsertionPoint blk \<le> x \<and> x < m_storage blk + BLOCK_SIZE_IN_BYTES
                \<longrightarrow> mem st' x = mem st x)
          \<and> (\<forall>k. 0 \<le> k \<and> k < activeTupleCount blk \<longrightarrow>
                (\<exists>k'. 0 \<le> k' \<and> k' < activeTupleCount blk
                   \<and> tupleAt (mem st') (block_begin blk) k = tupleAt (mem st) (block_begin blk) k'))"
    by blast
qed

theorem sort_leaves_non_inlined_region_witness:
  "\<exists>st'. sorter_sort example_sorter example_state (block_begin example_block) (block_end example_block)
       = Some (Inr st')
     \<and> map (mem st') [8392700, 8392701, 8392702, 8392703] = [9, 8, 7, 6]
     \<and> (\<exists>k'. 0 \<le> k' \<and> k' < 5 \<and>
           tupleAt (mem st') (block_begin example_block) 0 = tupleAt example_memory (block_begin example_block) k')"
proof -
  have n: "activeTupleCount example_block = 5" "m_nonInlinedInsertionPoint example_block = 8392700"
    "m_storage example_block = 4096"
    by (simp_all add: activeTupleCount_def example_block_def)
  obtain st' where s: "sorter_sort example_sorter example_state (block_begin example_block)
        (block_end example_block) = Some (Inr st')"
    and f: "\<forall>x. m_nonInlinedInsertionPoint example_block \<le> x
          \<and> x < m_storage example_block + BLOCK_SIZE_IN_BYTES \<longrightarrow> mem st' x = mem example_state x"
    and e: "\<forall>k. 0 \<le> k \<and> k < activeTupleCount example_block \<longrightarrow>
          (\<exists>k'. 0 \<le> k' \<and> k' < activeTupleCount example_block
             \<and> tupleAt (mem st') (block_begin example_block) k
               = tupleAt (mem example_state) (block_begin example_block) k')"
    using sort_leaves_non_inlined_region [OF example_block_invariant example_sorter_for, of example_state]
    by blast
  from f [rule_format, of 8392700] f [rule_format, of 8392701] f [rule_format, of 8392702]
    f [rule_format, of 8392703] e [rule_format, of 0] s
  show ?thesis
    by (simp add: n BLOCK_SIZE_IN_BYTES_def example_state_def example_memory_def store_bytes_def)
qed

lemma insertionSort_while_zero: "insertionSort_while srt st b 0 = st"
  by (subst insertionSort_while.simps) simp

lemma insertionSort_while_one:
  "compareCalls (insertionSort_while srt st b 1) = compareCalls st + 1"
proof -
  obtain c st1 where cmp: "compare srt st (iter_index b 1) (iter_index b 0) = (c, st1)"
    by (cases "compare srt st (iter_index b 1) (iter_index b 0)")
  have c1: "compareCalls st1 = compareCalls st + 1"
    using compare_counters [of srt st "iter_index b 1" "iter_index b 0"] cmp by simp
  have "insertionSort_while srt st b 1 =
      (if c then insertionSort_while srt (swap srt st1 (iter_index b 0) (iter_index b 1)) b 0 else st1)"
    by (subst insertionSort_while.simps) (simp add: cmp)
  then show ?thesis
    by (simp add: insertionSort_while_zero swap_counters c1)
qed

lemma insertionSort_for_two:
  "insertionSort_for 2 srt st b 0 = insertionSort_while srt st b 1"
proof -
  have "insertionSort_for 2 srt st b 0 = insertionSort_for 2 srt (insertionSort_while srt st b 0) b 1"
    by (subst insertionSort_for.simps) simp
  also have "\<dots> = insertionSort_for 2 srt (insertionSort_while srt st b 1) b 2"
    by (subst insertionSort_for.simps) (simp add: insertionSort_while_zero)
  also have "\<dots> = insertionSort_while srt st b 1"
    by (subst insertionSort_for.simps) simp
  finally show ?thesis .
qed

text \<open>
  Claim C8. Sorting a range of 0 or 1 tuples returns the state as it was: no byte of
  memory changes and neither the comparator nor \<^verbatim>\<open>swap\<close> is called. Sorting exactly 2
  tuples calls the comparator exactly once. A range of 3 or 4 tuples is sorted by
  \<^verbatim>\<open>insertionSort<3>\<close> or \<^verbatim>\<open>insertionSort<4>\<close>: the result of \<^verbatim>\<open>sort\<close> is the
  result of the insertion sort, and the partition loop is not entered.
\<close>

theorem sort_small_ranges:
  "(iter_diff endIt beginIt = Inr 0 \<or> iter_diff endIt beginIt = Inr 1
      \<longrightarrow> sorter_sort srt st beginIt endIt = Some (Inr st))
   \<and> (iter_diff endIt beginIt = Inr 2
      \<longrightarrow> (\<exists>st'. sorter_sort srt st beginIt endIt = Some (Inr st')
            \<and> compareCalls st' = compareCalls st + 1))
   \<and> (iter_diff endIt beginIt = Inr 3
      \<longrightarrow> sorter_sort srt st beginIt endIt = Some (insertionSort 3 srt st beginIt))
   \<and> (iter_diff endIt beginIt = Inr 4
      \<longrightarrow> sorter_sort srt st beginIt endIt = Some (insertionSort 4 srt st beginIt))"
proof (intro conjI impI)
  assume "iter_diff endIt beginIt = Inr 0 \<or> iter_diff endIt beginIt = Inr 1"
  then show "sorter_sort srt st beginIt endIt = Some (Inr st)"
    using sorter_sort_small [of endIt beginIt 0 srt st] sorter_sort_small [of endIt beginIt 1 srt st]
    by auto
next
  assume d: "iter_diff endIt beginIt = Inr 2"
  have "sorter_sort srt st beginIt endIt = Some (Inr (insertionSort_while srt st beginIt 1))"
    using sorter_sort_insertion [OF d, of srt st]
    by (simp add: insertionSort_def insertionSort_for_two)
  then show "\<exists>st'. sorter_sort srt st beginIt endIt = Some (Inr st')
            \<and> compareCalls st' = compareCalls st + 1"
    by (simp add: insertionSort_while_one)
next
  assume d: "iter_diff endIt beginIt = Inr 3"
  show "sorter_sort srt st beginIt endIt = Some (insertionSort 3 srt st beginIt)"
    using sorter_sort_insertion [OF d, of srt st] by simp
next
  assume d: "iter_diff endIt beginIt = Inr 4"
  show "sorter_sort srt st beginIt endIt = Some (insertionSort 4 srt st beginIt)"
    using sorter_sort_insertion [OF d, of srt st] by simp
qed

theorem sort_small_ranges_witness:
  "iter_diff (iter_plus (block_begin example_block) 2) (block_begin example_block) = Inr 2
   \<and> (\<exists>st'. sorter_sort example_sorter example_state (block_begin example_block)
          (iter_plus (block_begin example_block) 2) = Some (Inr st') \<and> compareCalls st' = 1)
   \<and> iter_diff (iter_plus (block_begin example_block) 1) (block_begin example_block) = Inr 1
   \<and> sorter_sort example_sorter example_state (block_begin example_block)
          (iter_plus (block_begin example_block) 1) = Some (Inr example_state)
   \<and> iter_diff (iter_plus (block_begin example_block) 3) (block_begin example_block) = Inr 3
   \<and> sorter_sort example_sorter example_state (block_begin example_block)
          (iter_plus (block_begin example_block) 3)
       = Some (insertionSort 3 example_sorter example_state (block_begin example_block))"
proof -
  have d: "iter_diff (iter_plus (block_begin example_block) k) (block_begin example_block) = Inr k" for k
    using iter_diff_plus [of "block_begin example_block" k 0]
    by (simp add: example_begin iter_plus_def iter_add_assign_def)
  show ?thesis
    using sort_small_ranges [of "iter_plus (block_begin example_block) 2" "block_begin example_block"
        example_sorter example_state]
      sort_small_ranges [of "iter_plus (block_begin example_block) 1" "block_begin example_block"
        example_sorter example_state]
      sort_small_ranges [of "iter_plus (block_begin example_block) 3" "block_begin example_block"
        example_sorter example_state]
    by (simp add: d example_state_def)
qed

section \<open>Capacity refusal\<close>

text \<open>
  Claim C5. For every resident block and every source tuple of the block's schema, of
  inline width \<open>L\<close> and total non-inlined size \<open>V\<close>, \<^verbatim>\<open>insertTuple\<close> returns, and it
  returns false exactly when the gap
  \<open>non_inlined_insertion_point - tuple_insertion_point\<close> is less than \<open>(L + 1) + V\<close>.
  When it returns false, the memory and the block (its insertion points and its tuple
  count among the rest) are as before.
\<close>

theorem insertTuple_refusal:
  assumes "isResident blk" "tt_schema source = m_schema blk"
  shows "(\<exists>ok m' blk'. insertTuple objectSize m blk source = Inr (ok, m', blk')
            \<and> (ok = False \<longleftrightarrow>
                 m_nonInlinedInsertionPoint blk - m_tupleInsertionPoint blk
                   < (tupleLength (m_schema blk) + 1) + nonInlinedSize objectSize m source))
     \<and> (\<forall>m' blk'. insertTuple objectSize m blk source = Inr (False, m', blk')
            \<longrightarrow> m' = m \<and> blk' = blk)"
  using assms
  by (auto simp: insertTuple_def Let_def TUPLE_HEADER_SIZE_def split: prod.splits)

theorem insertTuple_refusal_witness:
  "isResident example_full_block \<and> tt_schema example_source = m_schema example_full_block
   \<and> insertTuple (\<lambda>m a. 0) example_memory example_full_block example_source
       = Inr (False, example_memory, example_full_block)
   \<and> (\<exists>m' blk'. insertTuple (\<lambda>m a. 0) example_memory example_block example_source
       = Inr (True, m', blk'))"
proof -
  have r: "isResident example_full_block" "tt_schema example_source = m_schema example_full_block"
    "isResident example_block" "tt_schema example_source = m_schema example_block"
    by (simp_all add: isResident_def example_full_block_def example_block_def example_source_def
        toTableTuple_def)
  have gap: "m_nonInlinedInsertionPoint example_full_block - m_tupleInsertionPoint example_full_block
      < (tupleLength (m_schema example_full_block) + 1)
        + nonInlinedSize (\<lambda>m a. 0) example_memory example_source"
    "\<not> m_nonInlinedInsertionPoint example_block - m_tupleInsertionPoint example_block
      < (tupleLength (m_schema example_block) + 1)
        + nonInlinedSize (\<lambda>m a. 0) example_memory example_source"
    by (simp_all add: example_full_block_def example_block_def example_schema_def nonInlinedSize_def)
  show ?thesis
    using insertTuple_refusal [OF r(1,2), of "\<lambda>m a. 0" example_memory]
      insertTuple_refusal [OF r(3,4), of "\<lambda>m a. 0" example_memory] gap r
    by auto
qed

section \<open>Releasing and reloading a block\<close>

lemma length_encode_le [simp]: "length (encode_le n v) = n"
  by (induction n arbitrary: v) simp_all

lemma decode_encode_le: "decode_le (encode_le n v) = v mod 256 ^ n"
proof (induction n arbitrary: v)
  case 0
  show ?case by simp
next
  case (Suc n)
  have "uint (word_of_int v :: byte) = v mod 256"
    by (simp add: uint_word_of_int)
  then have "decode_le (encode_le (Suc n) v) = v mod 256 + 256 * (v div 256 mod 256 ^ n)"
    by (simp add: Suc)
  also have "\<dots> = v mod (256 * 256 ^ n)"
    using zmod_zmult2_eq [of "256 ^ n" v 256] by simp
  finally show ?case by simp
qed

lemma store_bytes_outside:
  "\<not> (a \<le> x \<and> x < a + int (length bs)) \<Longrightarrow> store_bytes m a bs x = m x"
  by (auto simp: store_bytes_def)

lemma tupleBytes_store_bytes: "tupleBytes (store_bytes m a bs) a (int (length bs)) = bs"
proof (rule nth_equalityI)
  show "length (tupleBytes (store_bytes m a bs) a (int (length bs))) = length bs"
    by (simp add: tupleBytes_def)
next
  fix i assume "i < length (tupleBytes (store_bytes m a bs) a (int (length bs)))"
  then have i: "i < length bs" by (simp add: tupleBytes_def)
  then show "tupleBytes (store_bytes m a bs) a (int (length bs)) ! i = bs ! i"
    by (simp add: tupleBytes_def store_bytes_def)
qed

lemma writeRef_outside:
  "\<not> (a \<le> x \<and> x < a + STRING_REF_SIZE) \<Longrightarrow> writeRef m a v x = m x"
  by (simp add: writeRef_def store_bytes_outside STRING_REF_SIZE_def)

lemma readRef_writeRef: "readRef (writeRef m a v) a = v mod 2 ^ 64"
proof -
  have "tupleBytes (store_bytes m a (encode_le 8 v)) a (int (length (encode_le 8 v))) = encode_le 8 v"
    by (rule tupleBytes_store_bytes)
  then have "readRef (writeRef m a v) a = decode_le (encode_le 8 v)"
    by (simp add: readRef_def writeRef_def STRING_REF_SIZE_def)
  then show ?thesis by (simp add: decode_encode_le)
qed

lemma readRef_cong:
  "(\<And>x. a \<le> x \<Longrightarrow> x < a + STRING_REF_SIZE \<Longrightarrow> m' x = m x) \<Longrightarrow> readRef m' a = readRef m a"
  unfolding readRef_def by (rule arg_cong [where f = decode_le], rule tupleBytes_cong) simp

lemma readRef_shift:
  "(\<And>k. 0 \<le> k \<Longrightarrow> k < STRING_REF_SIZE \<Longrightarrow> m' (a' + k) = m (a + k)) \<Longrightarrow> readRef m' a' = readRef m a"
  unfolding readRef_def by (rule arg_cong [where f = decode_le], rule tupleBytes_shift) simp

lemma relocateField_outside:
  "\<not> (t + off \<le> x \<and> x < t + off + STRING_REF_SIZE) \<Longrightarrow> relocateField m t delta off x = m x"
  by (simp add: relocateField_def writeRef_outside)

lemma relocateField_ref:
  "readRef (relocateField m t delta off) (t + off) = (readRef m (t + off) + delta) mod 2 ^ 64"
  by (simp add: relocateField_def readRef_writeRef)

lemma relocateTuple_outside:
  "(\<And>off. off \<in> set offs \<Longrightarrow> \<not> (t + off \<le> x \<and> x < t + off + STRING_REF_SIZE)) \<Longrightarrow>
   relocateTuple m t offs delta x = m x"
proof (induction offs arbitrary: m)
  case Nil
  show ?case by (simp add: relocateTuple_def)
next
  case (Cons off offs)
  have "relocateTuple m t (off # offs) delta x = relocateTuple (relocateField m t delta off) t offs delta x"
    by (simp add: relocateTuple_def)
  also have "\<dots> = relocateField m t delta off x"
    using Cons.prems by (intro Cons.IH) simp
  also have "\<dots> = m x"
    using Cons.prems [of off] by (simp add: relocateField_outside)
  finally show ?case .
qed

lemma relocateTuple_ref:
  assumes d: "distinct offs"
    and apart: "\<And>o1 o2. o1 \<in> set offs \<Longrightarrow> o2 \<in> set offs \<Longrightarrow>
        o1 = o2 \<or> o1 + STRING_REF_SIZE \<le> o2 \<or> o2 + STRING_REF_SIZE \<le> o1"
    and off: "off \<in> set offs"
  shows "readRef (relocateTuple m t offs delta) (t + off) = (readRef m (t + off) + delta) mod 2 ^ 64"
  using assms
proof (induction offs arbitrary: m)
  case Nil
  then show ?case by simp
next
  case (Cons o' offs)
  have step: "relocateTuple m t (o' # offs) delta = relocateTuple (relocateField m t delta o') t offs delta"
    by (simp add: relocateTuple_def)
  show ?case
  proof (cases "off = o'")
    case True
    have "readRef (relocateTuple (relocateField m t delta o') t offs delta) (t + off)
        = readRef (relocateField m t delta o') (t + off)"
    proof (rule readRef_cong, rule relocateTuple_outside)
      fix x o2 assume x: "t + off \<le> x" "x < t + off + STRING_REF_SIZE" and o2: "o2 \<in> set offs"
      have "o2 \<noteq> off" using o2 True Cons.prems(1) by auto
      then have "off + STRING_REF_SIZE \<le> o2 \<or> o2 + STRING_REF_SIZE \<le> off"
        using Cons.prems(2) [of off o2] o2 True by auto
      then show "\<not> (t + o2 \<le> x \<and> x < t + o2 + STRING_REF_SIZE)" using x by auto
    qed
    then show ?thesis by (simp add: step True relocateField_ref)
  next
    case False
    then have in_rest: "off \<in> set offs" using Cons.prems(3) by simp
    have "o' \<noteq> off" using False by simp
    then have ap: "off + STRING_REF_SIZE \<le> o' \<or> o' + STRING_REF_SIZE \<le> off"
      using Cons.prems(2) [of off o'] Cons.prems(3) by auto
    have "readRef (relocateTuple (relocateField m t delta o') t offs delta) (t + off)
        = (readRef (relocateField m t delta o') (t + off) + delta) mod 2 ^ 64"
    proof (rule Cons.IH [OF _ _ in_rest])
      show "distinct offs" using Cons.prems(1) by simp
      show "o1 = o2 \<or> o1 + STRING_REF_SIZE \<le> o2 \<or> o2 + STRING_REF_SIZE \<le> o1"
        if "o1 \<in> set offs" "o2 \<in> set offs" for o1 o2
        using Cons.prems(2) [of o1 o2] that by simp
    qed
    also have "readRef (relocateField m t delta o') (t + off) = readRef m (t + off)"
      by (rule readRef_cong, rule relocateField_outside) (use ap in auto)
    finally show ?thesis by (simp add: step)
  qed
qed

lemma walk_Cons:
  "walk m it offs delta (i # idxs) = walk (relocateTuple m (iter_index it i) offs delta) it offs delta idxs"
  by (simp add: walk_def)

lemma walk_outside:
  "(\<And>i off. i \<in> set idxs \<Longrightarrow> off \<in> set offs \<Longrightarrow>
      \<not> (iter_index it i + off \<le> x \<and> x < iter_index it i + off + STRING_REF_SIZE)) \<Longrightarrow>
   walk m it offs delta idxs x = m x"
proof (induction idxs arbitrary: m)
  case Nil
  show ?case by (simp add: walk_def)
next
  case (Cons i idxs)
  have "walk m it offs delta (i # idxs) x = relocateTuple m (iter_index it i) offs delta x"
    unfolding walk_Cons using Cons.prems by (intro Cons.IH) simp
  also have "\<dots> = m x"
    using Cons.prems by (intro relocateTuple_outside) simp
  finally show ?case .
qed

lemma fields_apart:
  assumes L: "0 < m_tupleLength it" and ij: "i \<noteq> j"
    and o1: "0 \<le> o1" "o1 + STRING_REF_SIZE \<le> m_tupleLength it"
    and o2: "0 \<le> o2" "o2 + STRING_REF_SIZE \<le> m_tupleLength it"
    and x: "iter_index it i + o1 \<le> x" "x < iter_index it i + o1 + STRING_REF_SIZE"
  shows "\<not> (iter_index it j + o2 \<le> x \<and> x < iter_index it j + o2 + STRING_REF_SIZE)"
proof -
  have "i < j \<or> j < i" using ij by auto
  then have "iter_index it i + m_tupleLength it \<le> iter_index it j
      \<or> iter_index it j + m_tupleLength it \<le> iter_index it i"
    using iter_index_apart [OF L, of i j] iter_index_apart [OF L, of j i] by blast
  then show ?thesis using o1 o2 x by auto
qed

lemma walk_ref:
  assumes L: "0 < m_tupleLength it"
    and d: "distinct offs"
    and apart: "\<And>o1 o2. o1 \<in> set offs \<Longrightarrow> o2 \<in> set offs \<Longrightarrow>
        o1 = o2 \<or> o1 + STRING_REF_SIZE \<le> o2 \<or> o2 + STRING_REF_SIZE \<le> o1"
    and fit: "\<And>off. off \<in> set offs \<Longrightarrow> 0 \<le> off \<and> off + STRING_REF_SIZE \<le> m_tupleLength it"
    and off: "off \<in> set offs"
  shows "distinct idxs \<Longrightarrow> i \<in> set idxs \<Longrightarrow>
    readRef (walk m it offs delta idxs) (iter_index it i + off)
      = (readRef m (iter_index it i + off) + delta) mod 2 ^ 64"
proof (induction idxs arbitrary: m)
  case Nil
  then show ?case by simp
next
  case (Cons i' idxs)
  define m1 where "m1 = relocateTuple m (iter_index it i') offs delta"
  have other: "\<not> (iter_index it j + o2 \<le> x \<and> x < iter_index it j + o2 + STRING_REF_SIZE)"
    if "j \<noteq> i" "o2 \<in> set offs" "iter_index it i + off \<le> x" "x < iter_index it i + off + STRING_REF_SIZE"
    for j o2 x
    using fields_apart [OF L, of i j off o2 x] that fit [OF off] fit [OF that(2)] by auto
  show ?case
  proof (cases "i = i'")
    case True
    then have notin: "i \<notin> set idxs" using Cons.prems(1) by simp
    have "readRef (walk m1 it offs delta idxs) (iter_index it i + off) = readRef m1 (iter_index it i + off)"
    proof (rule readRef_cong, rule walk_outside)
      fix x j o2
      assume "iter_index it i + off \<le> x" "x < iter_index it i + off + STRING_REF_SIZE"
        "j \<in> set idxs" "o2 \<in> set offs"
      then show "\<not> (iter_index it j + o2 \<le> x \<and> x < iter_index it j + o2 + STRING_REF_SIZE)"
        using other [of j o2 x] notin by auto
    qed
    also have "\<dots> = (readRef m (iter_index it i + off) + delta) mod 2 ^ 64"
      unfolding m1_def True by (rule relocateTuple_ref [OF d apart off])
    finally show ?thesis by (simp add: walk_Cons m1_def)
  next
    case False
    then have i: "i \<in> set idxs" using Cons.prems(2) by simp
    have "readRef (walk m1 it offs delta idxs) (iter_index it i + off)
        = (readRef m1 (iter_index it i + off) + delta) mod 2 ^ 64"
      using Cons.prems(1) i by (intro Cons.IH) simp_all
    also have "readRef m1 (iter_index it i + off) = readRef m (iter_index it i + off)"
      unfolding m1_def
    proof (rule readRef_cong, rule relocateTuple_outside)
      fix x o2
      assume "iter_index it i + off \<le> x" "x < iter_index it i + off + STRING_REF_SIZE" "o2 \<in> set offs"
      then show "\<not> (iter_index it i' + o2 \<le> x \<and> x < iter_index it i' + o2 + STRING_REF_SIZE)"
        using other [of i' o2 x] False by auto
    qed
    finally show ?thesis by (simp add: walk_Cons m1_def)
  qed
qed

lemma refs_fit_D:
  assumes "refs_fit schema"
  shows "distinct (stringRefOffsets schema)"
    and "\<And>o1 o2. o1 \<in> set (stringRefOffsets schema) \<Longrightarrow> o2 \<in> set (stringRefOffsets schema) \<Longrightarrow>
        o1 = o2 \<or> o1 + STRING_REF_SIZE \<le> o2 \<or> o2 + STRING_REF_SIZE \<le> o1"
    and "\<And>off. off \<in> set (stringRefOffsets schema) \<Longrightarrow>
        0 \<le> off \<and> off + STRING_REF_SIZE \<le> tupleLength schema + TUPLE_HEADER_SIZE"
  using assms by (auto simp: refs_fit_def list_all_iff)

lemma refs_in_block_D:
  assumes "refs_in_block m blk" "0 \<le> i" "i < m_activeTupleCount blk"
    "off \<in> set (stringRefOffsets (m_schema blk))"
  shows "m_nonInlinedInsertionPoint blk \<le> readRef m (iter_index (block_begin blk) i + off)
    \<and> readRef m (iter_index (block_begin blk) i + off) < m_storage blk + BLOCK_SIZE_IN_BYTES"
  using assms by (auto simp: refs_in_block_def list_all_iff)

lemma in_ref_field_I:
  assumes inv: "block_invariant blk" and i: "0 \<le> i" "i < m_activeTupleCount blk"
    and off: "off \<in> set (stringRefOffsets (m_schema blk))"
      "0 \<le> off" "off + STRING_REF_SIZE \<le> tupleLength (m_schema blk) + TUPLE_HEADER_SIZE"
    and x: "iter_index (block_begin blk) i + off \<le> x"
      "x < iter_index (block_begin blk) i + off + STRING_REF_SIZE"
  shows "in_ref_field blk x"
proof -
  define L where "L = tupleLength (m_schema blk) + TUPLE_HEADER_SIZE"
  define d where "d = x - iter_index (block_begin blk) i"
  have L: "0 < L" using inv by (simp add: L_def block_invariant_def TUPLE_HEADER_SIZE_def)
  have idx: "iter_index (block_begin blk) k = m_storage blk + k * L" for k
    by (simp add: iter_index_eq block_begin_def LttBlockIterator_schema_def address_of_def L_def)
  have d: "off \<le> d" "d < off + STRING_REF_SIZE" "0 \<le> d" "d < L"
    using x off by (simp_all add: d_def L_def)
  have xs: "x - m_storage blk = d + i * L" by (simp add: d_def idx)
  have md: "(x - m_storage blk) mod L = d" using d by (simp add: xs)
  have "i * L + L \<le> m_activeTupleCount blk * L"
    using mult_right_mono [of "i + 1" "m_activeTupleCount blk" L] i L by (simp add: algebra_simps)
  then have "x < m_tupleInsertionPoint blk"
    using inv d xs by (simp add: block_invariant_def L_def [symmetric])
  moreover have "m_storage blk \<le> x"
    using xs d i L by (smt (verit) mult_nonneg_nonneg)
  ultimately show ?thesis
    using off(1) d by (auto simp: in_ref_field_def list_ex_iff L_def [symmetric] md)
qed

lemma relocateNonInlinedFields_walk:
  "relocateNonInlinedFields m blk origAddress =
     walk m (block_begin blk) (stringRefOffsets (m_schema blk)) (m_storage blk - origAddress)
       [0..m_activeTupleCount blk - 1]"
  by (simp add: relocateNonInlinedFields_def walk_def)

lemma example_ref_invariant: "block_invariant example_ref_block"
  by (simp add: block_invariant_def example_ref_block_def example_ref_schema_def isResident_def
      TUPLE_HEADER_SIZE_def BLOCK_SIZE_IN_BYTES_def)

lemma example_refs_fit: "refs_fit example_ref_schema"
  by (simp add: refs_fit_def example_ref_schema_def STRING_REF_SIZE_def TUPLE_HEADER_SIZE_def)

lemma example_ref_begin: "block_begin example_ref_block = \<lparr>m_tupleLength = 10, m_tupleAddress = 4096\<rparr>"
  by (simp add: block_begin_def example_ref_block_def example_ref_schema_def LttBlockIterator_schema_def
      address_of_def TUPLE_HEADER_SIZE_def)

lemma example_ref_reads:
  "readRef example_ref_memory 4098 = 8392700" "readRef example_ref_memory 4108 = 8392702"
  by code_simp+

lemma example_refs_in_block: "refs_in_block example_ref_memory example_ref_block"
  by code_simp

text \<open>
  Claim C4. Let a block satisfy the block invariants and be unpinned, let the string-ref
  fields of its schema lie within the tuple without overlapping, and let every string
  ref of its tuples point into its non-inlined region. Let the memory \<open>m1\<close> hold, at
  \<open>new\<close>, the bytes that the storage of the block held in \<open>m0\<close>. Then
  \<^verbatim>\<open>releaseData\<close> followed by \<^verbatim>\<open>setData\<close> with the old address and \<open>new\<close> gives a
  block at \<open>new\<close> with the same number of tuples, in a memory in which every byte of
  the block outside the string-ref fields of its tuples is the byte the block had at the
  same offset, every string ref is the one the tuple had plus \<open>new - orig\<close>, and every
  byte read through a string ref is the byte that was read through it before.
\<close>

theorem release_set_data_round_trip:
  assumes inv: "block_invariant blk" and unpinned: "\<not> isPinned blk"
    and fit: "refs_fit (m_schema blk)" and refs: "refs_in_block m0 blk"
    and new: "0 < new" "new + BLOCK_SIZE_IN_BYTES \<le> 2 ^ 64"
    and same: "\<forall>k. 0 \<le> k \<and> k < BLOCK_SIZE_IN_BYTES \<longrightarrow> m1 (new + k) = m0 (m_storage blk + k)"
  shows "\<exists>blk0 m2 blk2.
     releaseData blk = Inr (m_storage blk, blk0) \<and> \<not> isResident blk0 \<and> isStored blk0 \<and>
     setData (m_storage blk) new m1 blk0 = (m2, blk2) \<and>
     block_invariant blk2 \<and> address_of blk2 = new \<and> activeTupleCount blk2 = activeTupleCount blk \<and>
     (\<forall>x. new \<le> x \<and> x < new + BLOCK_SIZE_IN_BYTES \<and> \<not> in_ref_field blk2 x
         \<longrightarrow> m2 x = m0 (x - (new - m_storage blk))) \<and>
     (\<forall>i off. 0 \<le> i \<and> i < activeTupleCount blk \<and> off \<in> set (stringRefOffsets (m_schema blk))
         \<longrightarrow> readRef m2 (iter_index (block_begin blk2) i + off)
             = readRef m0 (iter_index (block_begin blk) i + off) + (new - m_storage blk)) \<and>
     (\<forall>i off t. 0 \<le> i \<and> i < activeTupleCount blk \<and> off \<in> set (stringRefOffsets (m_schema blk))
           \<and> m_nonInlinedInsertionPoint blk \<le> readRef m0 (iter_index (block_begin blk) i + off) + t
           \<and> readRef m0 (iter_index (block_begin blk) i + off) + t < m_storage blk + BLOCK_SIZE_IN_BYTES
         \<longrightarrow> m2 (readRef m2 (iter_index (block_begin blk2) i + off) + t)
             = m0 (readRef m0 (iter_index (block_begin blk) i + off) + t))"
proof -
  define orig where "orig = m_storage blk"
  define delta where "delta = new - orig"
  define offs where "offs = stringRefOffsets (m_schema blk)"
  define L where "L = tupleLength (m_schema blk) + TUPLE_HEADER_SIZE"
  define n where "n = m_activeTupleCount blk"
  define blk0 where "blk0 = blk\<lparr>m_storage := 0, m_isStored := True\<rparr>"
  define blk2 where "blk2 = blk0\<lparr>m_storage := new,
      m_tupleInsertionPoint := m_tupleInsertionPoint blk0 + delta,
      m_nonInlinedInsertionPoint := m_nonInlinedInsertionPoint blk0 + delta\<rparr>"
  define it2 where "it2 = block_begin blk2"
  define m2 where "m2 = walk m1 it2 offs delta [0..n - 1]"
  have L: "0 < L" and n: "0 \<le> n"
    and tip: "m_tupleInsertionPoint blk = orig + n * L"
    and gap: "m_tupleInsertionPoint blk \<le> m_nonInlinedInsertionPoint blk"
    and top: "m_nonInlinedInsertionPoint blk \<le> orig + BLOCK_SIZE_IN_BYTES"
    using inv by (simp_all add: block_invariant_def L_def n_def orig_def TUPLE_HEADER_SIZE_def)
  have rel: "releaseData blk = Inr (orig, blk0)"
    using unpinned by (simp add: releaseData_def isPinned_def blk0_def orig_def)
  have set: "setData orig new m1 blk0 = (m2, blk2)"
    by (simp add: setData_def Let_def relocateNonInlinedFields_walk m2_def blk2_def blk0_def
        it2_def delta_def offs_def n_def)
  have sch2: "m_schema blk2 = m_schema blk" "m_activeTupleCount blk2 = n" "m_storage blk2 = new"
    "m_tupleInsertionPoint blk2 = new + n * L"
    "m_nonInlinedInsertionPoint blk2 = m_nonInlinedInsertionPoint blk + delta"
    using tip by (simp_all add: blk2_def blk0_def n_def delta_def)
  have inv2: "block_invariant blk2"
    using inv new gap top
    by (simp add: block_invariant_def sch2 isResident_def L_def [symmetric] n_def [symmetric] tip delta_def)
  have it2: "m_tupleLength it2 = L" "iter_index it2 k = new + k * L" for k
    by (simp_all add: it2_def block_begin_def LttBlockIterator_schema_def address_of_def sch2
        iter_index_eq L_def)
  have it0: "iter_index (block_begin blk) k = orig + k * L" for k
    by (simp add: block_begin_def LttBlockIterator_schema_def address_of_def iter_index_eq L_def orig_def)
  note rf = refs_fit_D [OF fit, folded offs_def L_def]
  have inside: "0 \<le> k * L + d \<and> k * L + d < BLOCK_SIZE_IN_BYTES"
    if "0 \<le> k" "k < n" "0 \<le> d" "d < L" for k d
  proof -
    have "k * L + L \<le> n * L"
      using mult_right_mono [of "k + 1" n L] that L by (simp add: algebra_simps)
    moreover have "0 \<le> k * L" using that L by simp
    ultimately show ?thesis using that tip gap top by simp
  qed
  text \<open>Bytes outside the string-ref fields.\<close>
  have frame: "m2 x = m0 (x - delta)"
    if x: "new \<le> x" "x < new + BLOCK_SIZE_IN_BYTES" "\<not> in_ref_field blk2 x" for x
  proof -
    have "m2 x = m1 x"
      unfolding m2_def
    proof (rule walk_outside)
      fix i off assume i: "i \<in> set [0..n - 1]" and off: "off \<in> set offs"
      show "\<not> (iter_index it2 i + off \<le> x \<and> x < iter_index it2 i + off + STRING_REF_SIZE)"
        using in_ref_field_I [OF inv2, of i off x] i off rf(3) [OF off] x(3)
        by (auto simp: sch2 offs_def L_def it2_def)
    qed
    also have "\<dots> = m0 (x - delta)"
    proof -
      have e: "orig + (x - new) = x - delta" by (simp add: delta_def)
      have "m1 (new + (x - new)) = m0 (orig + (x - new))"
        using same [rule_format, of "x - new"] x by (simp add: orig_def [symmetric])
      then show ?thesis unfolding e by simp
    qed
    finally show ?thesis .
  qed
  text \<open>The string refs.\<close>
  have ref: "readRef m2 (iter_index it2 i + off) = readRef m0 (iter_index (block_begin blk) i + off) + delta"
    if i: "0 \<le> i" "i < n" and off: "off \<in> set offs" for i off
  proof -
    have "readRef m2 (iter_index it2 i + off) = (readRef m1 (iter_index it2 i + off) + delta) mod 2 ^ 64"
      unfolding m2_def
      by (rule walk_ref [OF _ rf(1) rf(2) _ off]) (use L i rf(3) in \<open>auto simp: it2\<close>)
    also have "readRef m1 (iter_index it2 i + off) = readRef m0 (iter_index (block_begin blk) i + off)"
    proof (rule readRef_shift)
      fix k assume k: "0 \<le> k" "k < STRING_REF_SIZE"
      have "0 \<le> i * L + (off + k) \<and> i * L + (off + k) < BLOCK_SIZE_IN_BYTES"
        using inside [OF i, of "off + k"] rf(3) [OF off] k by simp
      then show "m1 (iter_index it2 i + off + k) = m0 (iter_index (block_begin blk) i + off + k)"
        using same [rule_format, of "i * L + (off + k)"]
        by (simp add: it2 it0 orig_def add.assoc)
    qed
    finally have eq: "readRef m2 (iter_index it2 i + off)
        = (readRef m0 (iter_index (block_begin blk) i + off) + delta) mod 2 ^ 64" .
    have r: "m_nonInlinedInsertionPoint blk \<le> readRef m0 (iter_index (block_begin blk) i + off)"
      "readRef m0 (iter_index (block_begin blk) i + off) < orig + BLOCK_SIZE_IN_BYTES"
      using refs_in_block_D [OF refs, of i off] i off by (simp_all add: n_def offs_def orig_def)
    have "orig \<le> m_nonInlinedInsertionPoint blk"
      using tip gap n L by (smt (verit) mult_nonneg_nonneg)
    then have "0 \<le> readRef m0 (iter_index (block_begin blk) i + off) + delta"
      "readRef m0 (iter_index (block_begin blk) i + off) + delta < 2 ^ 64"
      using r new by (simp_all add: delta_def)
    then show ?thesis using eq by simp
  qed
  text \<open>The objects the string refs point at.\<close>
  have obj: "m2 (readRef m2 (iter_index it2 i + off) + t) = m0 (readRef m0 (iter_index (block_begin blk) i + off) + t)"
    if i: "0 \<le> i" "i < n" and off: "off \<in> set offs"
      and t: "m_nonInlinedInsertionPoint blk \<le> readRef m0 (iter_index (block_begin blk) i + off) + t"
        "readRef m0 (iter_index (block_begin blk) i + off) + t < orig + BLOCK_SIZE_IN_BYTES"
    for i off t
  proof -
    define x where "x = readRef m0 (iter_index (block_begin blk) i + off) + t + delta"
    have x: "m_tupleInsertionPoint blk2 \<le> x" "x < new + BLOCK_SIZE_IN_BYTES"
      using t gap tip by (simp_all add: x_def sch2 delta_def)
    have "new \<le> m_tupleInsertionPoint blk2"
      using n L by (simp add: sch2)
    then have "m2 x = m0 (x - delta)"
      using x by (intro frame) (auto simp: in_ref_field_def)
    moreover have "readRef m2 (iter_index it2 i + off) + t = x"
      unfolding ref [OF i off] x_def by simp
    moreover have "x - delta = readRef m0 (iter_index (block_begin blk) i + off) + t"
      by (simp add: x_def)
    ultimately show ?thesis by simp
  qed
  have "\<not> isResident blk0" "isStored blk0" "address_of blk2 = new" "activeTupleCount blk2 = activeTupleCount blk"
    by (simp_all add: isResident_def isStored_def blk0_def address_of_def activeTupleCount_def sch2 n_def)
  with rel set inv2 frame ref obj show ?thesis
    unfolding orig_def [symmetric] delta_def [symmetric] offs_def [symmetric] it2_def
      activeTupleCount_def n_def [symmetric]
    by blast
qed

theorem release_set_data_round_trip_witness:
  "\<exists>blk0 m2 blk2.
     releaseData example_ref_block = Inr (4096, blk0) \<and>
     setData 4096 16777216 example_loaded_memory blk0 = (m2, blk2) \<and>
     address_of blk2 = 16777216 \<and> activeTupleCount blk2 = 2 \<and>
     m2 16777217 = 5 \<and> m2 16777227 = 3 \<and>
     readRef m2 (iter_index (block_begin blk2) 0 + 2) = 25165820 \<and>
     readRef m2 (iter_index (block_begin blk2) 1 + 2) = 25165822 \<and>
     m2 (readRef m2 (iter_index (block_begin blk2) 0 + 2) + 1) = 98 \<and>
     m2 (readRef m2 (iter_index (block_begin blk2) 1 + 2) + 1) = 100"
proof -
  have h: "\<not> isPinned example_ref_block" "(0::int) < 16777216"
    "16777216 + BLOCK_SIZE_IN_BYTES \<le> 2 ^ 64"
    "\<forall>k. 0 \<le> k \<and> k < BLOCK_SIZE_IN_BYTES \<longrightarrow>
        example_loaded_memory (16777216 + k) = example_ref_memory (m_storage example_ref_block + k)"
    by (simp_all add: isPinned_def example_ref_block_def BLOCK_SIZE_IN_BYTES_def example_loaded_memory_def)
  have v: "m_storage example_ref_block = 4096" "m_schema example_ref_block = example_ref_schema"
    "activeTupleCount example_ref_block = 2" "m_nonInlinedInsertionPoint example_ref_block = 8392700"
    "stringRefOffsets example_ref_schema = [2]"
    by (simp_all add: example_ref_block_def activeTupleCount_def example_ref_schema_def)
  obtain blk0 m2 blk2 where r:
    "releaseData example_ref_block = Inr (m_storage example_ref_block, blk0)"
    "setData (m_storage example_ref_block) 16777216 example_loaded_memory blk0 = (m2, blk2)"
    "address_of blk2 = 16777216" "activeTupleCount blk2 = activeTupleCount example_ref_block"
    and frame: "\<forall>x. 16777216 \<le> x \<and> x < 16777216 + BLOCK_SIZE_IN_BYTES \<and> \<not> in_ref_field blk2 x
         \<longrightarrow> m2 x = example_ref_memory (x - (16777216 - m_storage example_ref_block))"
    and ref: "\<forall>i off. 0 \<le> i \<and> i < activeTupleCount example_ref_block
           \<and> off \<in> set (stringRefOffsets (m_schema example_ref_block))
         \<longrightarrow> readRef m2 (iter_index (block_begin blk2) i + off)
             = readRef example_ref_memory (iter_index (block_begin example_ref_block) i + off)
               + (16777216 - m_storage example_ref_block)"
    and obj: "\<forall>i off t. 0 \<le> i \<and> i < activeTupleCount example_ref_block
           \<and> off \<in> set (stringRefOffsets (m_schema example_ref_block))
           \<and> m_nonInlinedInsertionPoint example_ref_block
               \<le> readRef example_ref_memory (iter_index (block_begin example_ref_block) i + off) + t
           \<and> readRef example_ref_memory (iter_index (block_begin example_ref_block) i + off) + t
               < m_storage example_ref_block + BLOCK_SIZE_IN_BYTES
         \<longrightarrow> m2 (readRef m2 (iter_index (block_begin blk2) i + off) + t)
             = example_ref_memory (readRef example_ref_memory
                 (iter_index (block_begin example_ref_block) i + off) + t)"
    using release_set_data_round_trip [OF example_ref_invariant h(1) _ example_refs_in_block h(2,3,4)]
      example_refs_fit
    by (auto simp: v)
  have blk0: "blk0 = example_ref_block\<lparr>m_storage := 0, m_isStored := True\<rparr>"
    using r(1) by (simp add: releaseData_def example_ref_block_def)
  have blk2: "m_storage blk2 = 16777216" "m_tupleInsertionPoint blk2 = 16777236"
    "m_schema blk2 = example_ref_schema"
    using r(2) by (auto simp: setData_def Let_def blk0 v example_ref_block_def)
  have nf: "\<not> in_ref_field blk2 16777217" "\<not> in_ref_field blk2 16777227"
    by (simp_all add: in_ref_field_def blk2 example_ref_schema_def TUPLE_HEADER_SIZE_def
        STRING_REF_SIZE_def)
  have mem: "example_ref_memory 4097 = 5" "example_ref_memory 4107 = 3"
    "example_ref_memory 8392701 = 98" "example_ref_memory 8392703 = 100"
    by code_simp+
  from frame [rule_format, of 16777217] frame [rule_format, of 16777227]
    ref [rule_format, of 0 2] ref [rule_format, of 1 2]
    obj [rule_format, of 0 2 1] obj [rule_format, of 1 2 1] r nf
  show ?thesis
    by (simp add: v example_ref_begin iter_index_eq example_ref_reads BLOCK_SIZE_IN_BYTES_def mem)
qed

section \<open>The two sorting strategies\<close>

subsection \<open>Repacking in the order of a sorted vector\<close>

lemma sorted_wrt_unique:
  assumes "sorted_wrt R xs" "sorted_wrt R ys" "mset xs = mset ys"
    and "\<And>a b. a \<in> set xs \<Longrightarrow> b \<in> set xs \<Longrightarrow> R a b \<Longrightarrow> R b a \<Longrightarrow> a = b"
  shows "xs = ys"
  using assms
proof (induction xs arbitrary: ys)
  case Nil
  then show ?case by simp
next
  case (Cons x xs)
  then obtain y ys' where ys: "ys = y # ys'" by (cases ys) auto
  have sets: "set (x # xs) = set (y # ys')"
    using Cons.prems(3) ys mset_eq_setD by blast
  have xy: "x = y"
  proof (rule ccontr)
    assume ne: "x \<noteq> y"
    then have in': "x \<in> set ys'" "y \<in> set xs" using sets by auto
    then have "R y x" "R x y" using Cons.prems(1,2) ys by auto
    then show False using Cons.prems(4) [of x y] ne in'(2) by simp
  qed
  have "xs = ys'"
  proof (rule Cons.IH)
    show "sorted_wrt R xs" "sorted_wrt R ys'" using Cons.prems(1,2) ys by auto
    show "mset xs = mset ys'" using Cons.prems(3) ys xy by simp
    show "a = b" if "a \<in> set xs" "b \<in> set xs" "R a b" "R b a" for a b
      using Cons.prems(4) [of a b] that by simp
  qed
  then show ?case using ys xy by simp
qed

lemma ordered_sorted_wrt:
  assumes "ordered lt m it lo hi"
  shows "sorted_wrt (\<lambda>a b. \<not> lt b a) (tuplesOf m it lo hi)"
proof -
  have "sorted_wrt (<) [lo..hi - 1]" by (rule sorted_wrt_upto)
  then have "sorted_wrt (\<lambda>k k'. \<not> lt (tupleAt m it k') (tupleAt m it k)) [lo..hi - 1]"
  proof (rule sorted_wrt_mono_rel [rotated])
    fix k k' assume "k \<in> set [lo..hi - 1]" "k' \<in> set [lo..hi - 1]" "k < k'"
    then show "\<not> lt (tupleAt m it k') (tupleAt m it k)"
      using assms by (simp add: ordered_def)
  qed
  then show ?thesis by (simp add: tuplesOf_def sorted_wrt_map)
qed

lemma tupleBytes_nth:
  "0 \<le> d \<Longrightarrow> d < len \<Longrightarrow> tupleBytes m a len ! nat d = m (a + d)"
  by (simp add: tupleBytes_def)

lemma tupleBytes_eqD:
  assumes "tupleBytes m a len = tupleBytes m' a' len" "0 \<le> d" "d < len"
  shows "m (a + d) = m' (a' + d)"
  using tupleBytes_nth [OF assms(2,3), of m a] tupleBytes_nth [OF assms(2,3), of m' a'] assms(1)
  by simp

lemma memcpy_inside: "dst \<le> x \<Longrightarrow> x < dst + n \<Longrightarrow> memcpy m dst src n x = m (src + (x - dst))"
  by (simp add: memcpy_def)

lemma memcpy_outside: "\<not> (dst \<le> x \<and> x < dst + n) \<Longrightarrow> memcpy m dst src n x = m x"
  by (auto simp: memcpy_def)

lemma in_field_iff:
  "in_field schema d \<longleftrightarrow> (\<exists>off \<in> set (stringRefOffsets schema). off \<le> d \<and> d < off + STRING_REF_SIZE)"
  by (simp add: in_field_def list_ex_iff)

lemma insert_one:
  assumes fit: "refs_fit (m_schema blk)"
    and res: "isResident blk" and sch: "tt_schema t = m_schema blk"
    and L: "L = tupleLength (m_schema blk) + TUPLE_HEADER_SIZE"
    and gap: "m_tupleInsertionPoint blk + L \<le> m_nonInlinedInsertionPoint blk"
    and src: "tt_address t + L \<le> m_tupleInsertionPoint blk \<or> m_tupleInsertionPoint blk + L \<le> tt_address t"
  shows "\<exists>m'. insertTupleRelocateNonInlinedFields m blk t orig =
        Inr (True, m', blk\<lparr>m_tupleInsertionPoint := m_tupleInsertionPoint blk + L,
                            m_activeTupleCount := m_activeTupleCount blk + 1\<rparr>) \<and>
     (\<forall>x. \<not> (m_tupleInsertionPoint blk \<le> x \<and> x < m_tupleInsertionPoint blk + L) \<longrightarrow> m' x = m x) \<and>
     (\<forall>d. 0 \<le> d \<and> d < L \<and> \<not> in_field (m_schema blk) d
          \<longrightarrow> m' (m_tupleInsertionPoint blk + d) = m (tt_address t + d)) \<and>
     (\<forall>off \<in> set (stringRefOffsets (m_schema blk)).
          readRef m' (m_tupleInsertionPoint blk + off)
            = (readRef m (tt_address t + off) + (m_storage blk - orig)) mod 2 ^ 64)"
proof -
  define tip where "tip = m_tupleInsertionPoint blk"
  define offs where "offs = stringRefOffsets (m_schema blk)"
  define delta where "delta = m_storage blk - orig"
  define m1 where "m1 = memcpy m tip (tt_address t) L"
  define m2 where "m2 = relocateTuple m1 tip offs delta"
  note rf = refs_fit_D [OF fit, folded offs_def L]
  have res': "insertTupleRelocateNonInlinedFields m blk t orig =
      Inr (True, m2, blk\<lparr>m_tupleInsertionPoint := tip + L,
                          m_activeTupleCount := m_activeTupleCount blk + 1\<rparr>)"
    using res sch gap
    by (simp add: insertTupleRelocateNonInlinedFields_def Let_def L [symmetric] m2_def m1_def
        tip_def offs_def delta_def)
  have frame: "m2 x = m x" if "\<not> (tip \<le> x \<and> x < tip + L)" for x
  proof -
    have "m2 x = m1 x"
      unfolding m2_def
    proof (rule relocateTuple_outside)
      fix off assume "off \<in> set offs"
      then show "\<not> (tip + off \<le> x \<and> x < tip + off + STRING_REF_SIZE)"
        using rf(3) [of off] that by auto
    qed
    then show ?thesis using that by (simp add: m1_def memcpy_outside)
  qed
  have body: "m2 (tip + d) = m (tt_address t + d)"
    if "0 \<le> d" "d < L" "\<not> in_field (m_schema blk) d" for d
  proof -
    have "m2 (tip + d) = m1 (tip + d)"
      unfolding m2_def
    proof (rule relocateTuple_outside)
      fix off assume "off \<in> set offs"
      then show "\<not> (tip + off \<le> tip + d \<and> tip + d < tip + off + STRING_REF_SIZE)"
        using that(3) by (auto simp: in_field_iff offs_def)
    qed
    then show ?thesis using that by (simp add: m1_def memcpy_inside)
  qed
  have ref: "readRef m2 (tip + off) = (readRef m (tt_address t + off) + delta) mod 2 ^ 64"
    if off: "off \<in> set offs" for off
  proof -
    have "readRef m2 (tip + off) = (readRef m1 (tip + off) + delta) mod 2 ^ 64"
      unfolding m2_def by (rule relocateTuple_ref [OF rf(1) rf(2) off])
    also have "readRef m1 (tip + off) = readRef m (tt_address t + off)"
    proof (rule readRef_shift)
      fix k assume "0 \<le> k" "k < STRING_REF_SIZE"
      then have "tip \<le> tip + off + k" "tip + off + k < tip + L"
        using rf(3) [OF off] by auto
      then show "m1 (tip + off + k) = m (tt_address t + off + k)"
        by (simp add: m1_def memcpy_inside add.assoc)
    qed
    finally show ?thesis .
  qed
  from res' frame body ref show ?thesis
    unfolding tip_def offs_def delta_def by blast
qed

lemma reinsert_spec:
  assumes fit: "refs_fit schema" and L: "L = tupleLength schema + TUPLE_HEADER_SIZE" "0 < L"
  shows "m_schema blk = schema \<Longrightarrow> isResident blk \<Longrightarrow> (\<forall>t \<in> set ts. tt_schema t = schema) \<Longrightarrow>
     m_tupleInsertionPoint blk + int (length ts) * L \<le> m_nonInlinedInsertionPoint blk \<Longrightarrow>
     (\<forall>t \<in> set ts. tt_address t + L \<le> m_tupleInsertionPoint blk
        \<or> m_tupleInsertionPoint blk + int (length ts) * L \<le> tt_address t) \<Longrightarrow>
     \<exists>m'. reinsert m blk orig ts =
          Inr (m', blk\<lparr>m_tupleInsertionPoint := m_tupleInsertionPoint blk + int (length ts) * L,
                        m_activeTupleCount := m_activeTupleCount blk + int (length ts)\<rparr>) \<and>
       (\<forall>x. \<not> (m_tupleInsertionPoint blk \<le> x
               \<and> x < m_tupleInsertionPoint blk + int (length ts) * L) \<longrightarrow> m' x = m x) \<and>
       (\<forall>k < length ts.
          (\<forall>d. 0 \<le> d \<and> d < L \<and> \<not> in_field schema d
             \<longrightarrow> m' (m_tupleInsertionPoint blk + int k * L + d) = m (tt_address (ts ! k) + d)) \<and>
          (\<forall>off \<in> set (stringRefOffsets schema).
             readRef m' (m_tupleInsertionPoint blk + int k * L + off)
               = (readRef m (tt_address (ts ! k) + off) + (m_storage blk - orig)) mod 2 ^ 64))"
proof (induction ts arbitrary: m blk)
  case Nil
  then show ?case by simp
next
  case (Cons t ts)
  define tip where "tip = m_tupleInsertionPoint blk"
  define n where "n = int (length ts)"
  define blk1 where "blk1 = blk\<lparr>m_tupleInsertionPoint := tip + L,
      m_activeTupleCount := m_activeTupleCount blk + 1\<rparr>"
  note rf = refs_fit_D [OF fit, folded L(1)]
  have n: "0 \<le> n" by (simp add: n_def)
  have nL: "0 \<le> n * L" using n L(2) by simp
  have gap: "tip + (n + 1) * L \<le> m_nonInlinedInsertionPoint blk"
    using Cons.prems(4) by (simp add: tip_def n_def algebra_simps)
  have srcs: "tt_address t' + L \<le> tip \<or> tip + (n + 1) * L \<le> tt_address t'"
    if "t' \<in> set (t # ts)" for t'
    using Cons.prems(5) that by (auto simp: tip_def n_def algebra_simps)
  have hd: "tt_address t + L \<le> tip \<or> tip + L \<le> tt_address t"
    using srcs [of t] nL by (auto simp: algebra_simps)
  obtain m1 where ins: "insertTupleRelocateNonInlinedFields m blk t orig = Inr (True, m1, blk1)"
    and f1: "\<And>x. \<not> (tip \<le> x \<and> x < tip + L) \<Longrightarrow> m1 x = m x"
    and b1: "\<And>d. 0 \<le> d \<Longrightarrow> d < L \<Longrightarrow> \<not> in_field schema d \<Longrightarrow> m1 (tip + d) = m (tt_address t + d)"
    and r1: "\<And>off. off \<in> set (stringRefOffsets schema) \<Longrightarrow>
        readRef m1 (tip + off) = (readRef m (tt_address t + off) + (m_storage blk - orig)) mod 2 ^ 64"
  proof -
    have "tip + L \<le> m_nonInlinedInsertionPoint blk" using gap nL by (simp add: algebra_simps)
    then show ?thesis
      using insert_one [of blk t L m orig] fit Cons.prems(1,2,3) L(1) hd that
      unfolding tip_def blk1_def by auto
  qed
  have pre1: "m_schema blk1 = schema" "isResident blk1" "\<forall>t \<in> set ts. tt_schema t = schema"
    "m_tupleInsertionPoint blk1 + int (length ts) * L \<le> m_nonInlinedInsertionPoint blk1"
    "\<forall>t' \<in> set ts. tt_address t' + L \<le> m_tupleInsertionPoint blk1
        \<or> m_tupleInsertionPoint blk1 + int (length ts) * L \<le> tt_address t'"
  proof -
    show "m_schema blk1 = schema" "isResident blk1" "\<forall>t \<in> set ts. tt_schema t = schema"
      using Cons.prems(1,2,3) by (auto simp: blk1_def isResident_def)
    show "m_tupleInsertionPoint blk1 + int (length ts) * L \<le> m_nonInlinedInsertionPoint blk1"
      using gap by (simp add: blk1_def n_def [symmetric] algebra_simps)
    show "\<forall>t' \<in> set ts. tt_address t' + L \<le> m_tupleInsertionPoint blk1
        \<or> m_tupleInsertionPoint blk1 + int (length ts) * L \<le> tt_address t'"
    proof
      fix t' assume "t' \<in> set ts"
      then have "tt_address t' + L \<le> tip \<or> tip + (n + 1) * L \<le> tt_address t'"
        using srcs [of t'] by simp
      then show "tt_address t' + L \<le> m_tupleInsertionPoint blk1
        \<or> m_tupleInsertionPoint blk1 + int (length ts) * L \<le> tt_address t'"
        using L(2) by (auto simp: blk1_def n_def [symmetric] algebra_simps)
    qed
  qed
  obtain m' where re: "reinsert m1 blk1 orig ts =
        Inr (m', blk1\<lparr>m_tupleInsertionPoint := m_tupleInsertionPoint blk1 + int (length ts) * L,
                        m_activeTupleCount := m_activeTupleCount blk1 + int (length ts)\<rparr>)"
    and f2: "\<And>x. \<not> (tip + L \<le> x \<and> x < tip + L + n * L) \<Longrightarrow> m' x = m1 x"
    and b2: "\<And>k d. k < length ts \<Longrightarrow> 0 \<le> d \<Longrightarrow> d < L \<Longrightarrow> \<not> in_field schema d \<Longrightarrow>
        m' (tip + L + int k * L + d) = m1 (tt_address (ts ! k) + d)"
    and r2: "\<And>k off. k < length ts \<Longrightarrow> off \<in> set (stringRefOffsets schema) \<Longrightarrow>
        readRef m' (tip + L + int k * L + off)
          = (readRef m1 (tt_address (ts ! k) + off) + (m_storage blk - orig)) mod 2 ^ 64"
  proof -
    have e: "m_tupleInsertionPoint blk1 = tip + L" "m_storage blk1 = m_storage blk"
      by (simp_all add: blk1_def)
    from Cons.IH [OF pre1, of m1] that show ?thesis
      unfolding e n_def by blast
  qed
  have blk_eq: "blk1\<lparr>m_tupleInsertionPoint := m_tupleInsertionPoint blk1 + int (length ts) * L,
                        m_activeTupleCount := m_activeTupleCount blk1 + int (length ts)\<rparr>
      = blk\<lparr>m_tupleInsertionPoint := m_tupleInsertionPoint blk + int (length (t # ts)) * L,
             m_activeTupleCount := m_activeTupleCount blk + int (length (t # ts))\<rparr>"
    by (simp add: blk1_def tip_def algebra_simps)
  have res: "reinsert m blk orig (t # ts) =
      Inr (m', blk\<lparr>m_tupleInsertionPoint := m_tupleInsertionPoint blk + int (length (t # ts)) * L,
                    m_activeTupleCount := m_activeTupleCount blk + int (length (t # ts))\<rparr>)"
    by (simp add: ins re blk_eq del: length_Cons list.size)
  have src_clear: "m1 (tt_address t' + d) = m (tt_address t' + d)"
    if "t' \<in> set ts" "0 \<le> d" "d < L" for t' d
    using srcs [of t'] that nL by (intro f1) (auto simp: algebra_simps)
  have frame: "m' x = m x" if "\<not> (tip \<le> x \<and> x < tip + (n + 1) * L)" for x
  proof -
    have "m' x = m1 x" using that L(2) by (intro f2) (auto simp: algebra_simps)
    also have "\<dots> = m x" using that nL by (intro f1) (auto simp: algebra_simps)
    finally show ?thesis .
  qed
  have body: "m' (tip + int k * L + d) = m (tt_address ((t # ts) ! k) + d)"
    if k: "k < length (t # ts)" and d: "0 \<le> d" "d < L" "\<not> in_field schema d" for k d
  proof (cases k)
    case 0
    have "m' (tip + d) = m1 (tip + d)" using d nL by (intro f2) auto
    then show ?thesis using 0 b1 [OF d] by simp
  next
    case (Suc k')
    then have k': "k' < length ts" using k by simp
    have "m' (tip + L + int k' * L + d) = m1 (tt_address (ts ! k') + d)"
      by (rule b2 [OF k' d])
    also have "\<dots> = m (tt_address (ts ! k') + d)"
      using src_clear [of "ts ! k'" d] k' d by simp
    finally show ?thesis using Suc by (simp add: algebra_simps)
  qed
  have ref: "readRef m' (tip + int k * L + off)
      = (readRef m (tt_address ((t # ts) ! k) + off) + (m_storage blk - orig)) mod 2 ^ 64"
    if k: "k < length (t # ts)" and off: "off \<in> set (stringRefOffsets schema)" for k off
  proof (cases k)
    case 0
    have "readRef m' (tip + off) = readRef m1 (tip + off)"
    proof (rule readRef_cong)
      fix x assume "tip + off \<le> x" "x < tip + off + STRING_REF_SIZE"
      then show "m' x = m1 x" using rf(3) [OF off] nL by (intro f2) auto
    qed
    then show ?thesis using 0 r1 [OF off] by simp
  next
    case (Suc k')
    then have k': "k' < length ts" using k by simp
    have "readRef m1 (tt_address (ts ! k') + off) = readRef m (tt_address (ts ! k') + off)"
    proof (rule readRef_cong)
      fix x assume x: "tt_address (ts ! k') + off \<le> x" "x < tt_address (ts ! k') + off + STRING_REF_SIZE"
      have "m1 (tt_address (ts ! k') + (x - tt_address (ts ! k'))) = m (tt_address (ts ! k') + (x - tt_address (ts ! k')))"
        using x rf(3) [OF off] k' by (intro src_clear) auto
      then show "m1 x = m x" by simp
    qed
    then show ?thesis using Suc r2 [OF k' off] by (simp add: algebra_simps)
  qed
  from res frame body ref show ?case
    unfolding tip_def [symmetric] n_def
    by (simp add: algebra_simps del: length_Cons list.size) (simp add: algebra_simps)
qed

lemma tuplesOf_nth:
  "0 \<le> k \<Longrightarrow> k < n \<Longrightarrow> tuplesOf m it 0 n ! nat k = tupleAt m it k"
  by (simp add: tuplesOf_def)

lemma set_tuplesOf: "set (tuplesOf m it 0 n) = {tupleAt m it i | i. 0 \<le> i \<and> i < n}"
  by (auto simp: tuplesOf_def)

lemma block_begin_index:
  "iter_index (block_begin blk) k = m_storage blk + k * (tupleLength (m_schema blk) + TUPLE_HEADER_SIZE)"
  by (simp add: iter_index_eq block_begin_def LttBlockIterator_schema_def address_of_def)

lemma block_begin_length:
  "m_tupleLength (block_begin blk) = tupleLength (m_schema blk) + TUPLE_HEADER_SIZE"
  by (simp add: block_begin_def LttBlockIterator_schema_def)

lemma handles_sorted:
  assumes srt: "sorter_for srt blk"
    and cmp: "compares_as lt srt (block_begin blk) (activeTupleCount blk) m0"
    and std: "std_sort_result (srt_compare srt) m0 (tupleHandles blk) ttVector"
    and L: "L = tupleLength (m_schema blk) + TUPLE_HEADER_SIZE"
  shows "length ttVector = nat (activeTupleCount blk)"
    and "\<And>t. t \<in> set ttVector \<Longrightarrow> \<exists>i. 0 \<le> i \<and> i < activeTupleCount blk \<and>
           t = toTableTuple (iter_index (block_begin blk) i) (m_schema blk)"
    and "mset (map (\<lambda>t. tupleBytes m0 (tt_address t) L) ttVector)
           = mset (tuplesOf m0 (block_begin blk) 0 (activeTupleCount blk))"
    and "sorted_wrt (\<lambda>a b. \<not> lt b a) (map (\<lambda>t. tupleBytes m0 (tt_address t) L) ttVector)"
proof -
  define it where "it = block_begin blk"
  define n where "n = activeTupleCount blk"
  define f where "f = (\<lambda>t. tupleBytes m0 (tt_address t) L)"
  have ms: "mset ttVector = mset (tupleHandles blk)"
    and so: "sorted_wrt (\<lambda>a b. \<not> srt_compare srt m0 b a) ttVector"
    using std by (simp_all add: std_sort_result_def)
  have "length ttVector = length (tupleHandles blk)"
    using ms by (metis size_mset)
  then show "length ttVector = nat (activeTupleCount blk)"
    by (simp add: tupleHandles_def activeTupleCount_def)
  have el: "\<exists>i. 0 \<le> i \<and> i < n \<and> t = toTableTuple (iter_index it i) (m_schema blk)"
    if "t \<in> set ttVector" for t
  proof -
    have "t \<in> set (tupleHandles blk)" using that ms mset_eq_setD by blast
    then show ?thesis by (auto simp: tupleHandles_def it_def n_def activeTupleCount_def)
  qed
  then show "\<And>t. t \<in> set ttVector \<Longrightarrow> \<exists>i. 0 \<le> i \<and> i < activeTupleCount blk \<and>
           t = toTableTuple (iter_index (block_begin blk) i) (m_schema blk)"
    unfolding it_def n_def by blast
  have fh: "map f (tupleHandles blk) = tuplesOf m0 it 0 n"
    by (simp add: tupleHandles_def tuplesOf_def f_def tupleAt_def it_def n_def activeTupleCount_def
        toTableTuple_def tt_address_def block_begin_length L)
  have "mset (map f ttVector) = image_mset f (mset ttVector)" by simp
  also have "\<dots> = mset (map f (tupleHandles blk))" by (simp add: ms)
  also have "\<dots> = mset (tuplesOf m0 it 0 n)" by (simp only: fh)
  finally show "mset (map (\<lambda>t. tupleBytes m0 (tt_address t) L) ttVector)
           = mset (tuplesOf m0 (block_begin blk) 0 (activeTupleCount blk))"
    unfolding f_def it_def n_def .
  have sch: "srt_schema srt = m_schema blk" using srt by (simp add: sorter_for_def)
  have "sorted_wrt (\<lambda>a b. \<not> lt (f b) (f a)) ttVector"
  using so proof (rule sorted_wrt_mono_rel [rotated])
    fix a b assume "a \<in> set ttVector" "b \<in> set ttVector" and nc: "\<not> srt_compare srt m0 b a"
    then obtain i j where i: "0 \<le> i" "i < n" "a = toTableTuple (iter_index it i) (m_schema blk)"
      and j: "0 \<le> j" "j < n" "b = toTableTuple (iter_index it j) (m_schema blk)"
      using el by blast
    have "srt_compare srt m0 b a = lt (tupleAt m0 it j) (tupleAt m0 it i)"
      using cmp i j rearranged_refl [of srt it 0 n m0]
      unfolding compares_as_def it_def [symmetric] n_def [symmetric] sch by blast
    moreover have "f a = tupleAt m0 it i" "f b = tupleAt m0 it j"
      by (simp_all add: f_def i j tupleAt_def toTableTuple_def tt_address_def it_def block_begin_length L)
    ultimately show "\<not> lt (f b) (f a)" using nc by simp
  qed
  then show "sorted_wrt (\<lambda>a b. \<not> lt b a) (map (\<lambda>t. tupleBytes m0 (tt_address t) L) ttVector)"
    by (simp add: sorted_wrt_map f_def)
qed

lemma sorted_tuples_handles:
  assumes inv: "block_invariant blk" and srt: "sorter_for srt blk"
    and swo: "strict_weak_order lt"
    and cmp: "compares_as lt srt (block_begin blk) (activeTupleCount blk) (mem st)"
    and ties: "ties_identical lt (mem st) (block_begin blk) (activeTupleCount blk)"
    and std: "std_sort_result (srt_compare srt) (mem st) (tupleHandles blk) ttVector"
    and L: "L = tupleLength (m_schema blk) + TUPLE_HEADER_SIZE"
  shows "\<exists>st'. sorter_sort srt st (block_begin blk) (block_end blk) = Some (Inr st') \<and>
       rearranged srt (block_begin blk) 0 (activeTupleCount blk) (mem st) (mem st') \<and>
       ordered lt (mem st') (block_begin blk) 0 (activeTupleCount blk) \<and>
       tuplesOf (mem st') (block_begin blk) 0 (activeTupleCount blk)
         = map (\<lambda>t. tupleBytes (mem st) (tt_address t) L) ttVector"
proof -
  define it where "it = block_begin blk"
  define n where "n = activeTupleCount blk"
  obtain st' where s: "sorter_sort srt st (block_begin blk) (block_end blk) = Some (Inr st')"
    and r: "rearranged srt it 0 n (mem st) (mem st')"
    and o: "ordered lt (mem st') it 0 n"
    using block_sort [OF inv srt, of st lt] swo cmp unfolding it_def n_def by blast
  note h = handles_sorted [OF srt cmp std L, folded it_def n_def]
  have ms: "mset (tuplesOf (mem st') it 0 n) = mset (tuplesOf (mem st) it 0 n)"
    using r by (simp add: rearranged_def)
  have "tuplesOf (mem st') it 0 n = map (\<lambda>t. tupleBytes (mem st) (tt_address t) L) ttVector"
  proof (rule sorted_wrt_unique [where R = "\<lambda>a b. \<not> lt b a"])
    show "sorted_wrt (\<lambda>a b. \<not> lt b a) (tuplesOf (mem st') it 0 n)"
      by (rule ordered_sorted_wrt [OF o])
    show "sorted_wrt (\<lambda>a b. \<not> lt b a) (map (\<lambda>t. tupleBytes (mem st) (tt_address t) L) ttVector)"
      by (rule h(4))
    show "mset (tuplesOf (mem st') it 0 n) = mset (map (\<lambda>t. tupleBytes (mem st) (tt_address t) L) ttVector)"
      using ms h(3) by simp
    fix a b assume a: "a \<in> set (tuplesOf (mem st') it 0 n)" and b: "b \<in> set (tuplesOf (mem st') it 0 n)"
      and ab: "\<not> lt b a" "\<not> lt a b"
    have "set (tuplesOf (mem st') it 0 n) = set (tuplesOf (mem st) it 0 n)"
      using ms mset_eq_setD by blast
    then obtain i j where i: "0 \<le> i" "i < n" "a = tupleAt (mem st) it i"
      and j: "0 \<le> j" "j < n" "b = tupleAt (mem st) it j"
      using a b by (auto simp: set_tuplesOf)
    have "lt a b \<or> lt b a \<or> a = b"
      using ties i j unfolding ties_identical_def it_def [symmetric] n_def [symmetric]
      by (auto simp: list_all_iff)
    then show "a = b" using ab by blast
  qed
  with s r o show ?thesis unfolding it_def n_def by blast
qed

lemma idx_bound:
  fixes i n d L :: int
  assumes "0 \<le> i" "i < n" "0 \<le> d" "d < L"
  shows "0 \<le> i * L + d" "i * L + d < n * L" "i * L + L \<le> n * L"
proof -
  have L: "0 < L" using assms by simp
  have "(i + 1) * L \<le> n * L" using assms L by (intro mult_right_mono) auto
  then show "i * L + d < n * L" "i * L + L \<le> n * L" using assms by (auto simp: algebra_simps)
  show "0 \<le> i * L + d" using assms L by simp
qed

subsection \<open>The example blocks\<close>

lemma example_ref_sorter_for: "sorter_for example_ref_sorter example_ref_block"
  by (simp add: sorter_for_def example_ref_sorter_def LTTBlockSorter_new_def example_ref_block_def
      toTableTuple_def tt_address_def tt_tupleLength_def example_ref_schema_def TUPLE_HEADER_SIZE_def)

lemma example_ref_compares:
  "compares_as (\<lambda>x y. x ! 1 < y ! 1) example_ref_sorter (block_begin example_ref_block) n m0"
  by (simp add: compares_as_def example_ref_sorter_def LTTBlockSorter_new_def first_byte_less_def
      toTableTuple_def tupleAt_def tupleBytes_def example_ref_begin upto_rec1)

lemma example_ref_ties:
  "ties_identical (\<lambda>x y. x ! 1 < y ! 1) example_ref_memory (block_begin example_ref_block) 2"
  by code_simp

lemma example_ref_std_sort:
  "std_sort_result first_byte_less example_ref_memory (tupleHandles example_ref_block) example_ref_sorted"
  by code_simp

lemma example_ref_output_fresh:
  "block_invariant example_ref_output" "m_schema example_ref_output = m_schema example_ref_block"
  "m_activeTupleCount example_ref_output = 0"
  "m_nonInlinedInsertionPoint example_ref_output = m_storage example_ref_output + BLOCK_SIZE_IN_BYTES"
  "0 \<le> m_storage example_ref_output" "m_storage example_ref_output + BLOCK_SIZE_IN_BYTES \<le> 2 ^ 64"
  "m_storage example_ref_block + BLOCK_SIZE_IN_BYTES \<le> m_storage example_ref_output
       \<or> m_storage example_ref_output + BLOCK_SIZE_IN_BYTES \<le> m_storage example_ref_block"
  by (simp_all add: block_invariant_def example_ref_output_def example_ref_block_def isResident_def
      example_ref_schema_def TUPLE_HEADER_SIZE_def BLOCK_SIZE_IN_BYTES_def)

lemma example_ref_sorted_refs:
  "(case sorter_sort example_ref_sorter \<lparr>mem = example_ref_memory, compareCalls = 0, swapCalls = 0\<rparr>
          (block_begin example_ref_block) (block_end example_ref_block) of
      Some (Inr st') \<Rightarrow> readRef (mem st') 4098 = 8392702 \<and> readRef (mem st') 4108 = 8392700
    | _ \<Rightarrow> False)"
  by code_simp

text \<open>
  Claim C3. Let the input block satisfy the block invariants with every string ref of
  its tuples pointing into its non-inlined region, let the sorter be made for it, and let
  its comparator decide by a strict weak ordering \<open>lt\<close> under which two tuples of the
  block of which neither is before the other have the same bytes. Let the vector be what
  \<^verbatim>\<open>std::sort\<close> may leave of the handles of the block, and let the output block be fresh:
  empty, of the same schema, its storage apart from that of the input block. Then both
  strategies return, and they give the same ordered output:
  \<^item> the block sorted in place is ordered by \<open>lt\<close>, and the output block satisfies the
    block invariants and holds as many tuples as the input block;
  \<^item> for every \<open>k\<close> the tuple \<open>k\<close> of the output block is the tuple \<open>k\<close> of the
    block sorted in place, moved by the distance between the two storages: the same bytes
    outside the string-ref fields, and every string ref higher by that distance;
  \<^item> the non-inlined data travels unmodified in both: the sort in place leaves the
    non-inlined region of the input block as it was, and the non-inlined region of the
    output block begins that distance above that of the input block and holds the same
    bytes at the same offsets;
  \<^item> every string ref of the output block points into its own non-inlined region, and a
    byte read through a string ref of tuple \<open>k\<close> of the output block is the byte read
    through the same string ref of tuple \<open>k\<close> of the block sorted in place.

  Without the condition on tuples that compare equivalent the two orders may differ: of
  three tuples with the key 2, the sort in place puts the second of the block first, while
  the vector may keep them in the order of the block.
\<close>

theorem sort_strategies_agree:
  assumes inv: "block_invariant blockInput" and srt: "sorter_for srt blockInput"
    and swo: "strict_weak_order lt"
    and cmp: "compares_as lt srt (block_begin blockInput) (activeTupleCount blockInput) (mem st)"
    and ties: "ties_identical lt (mem st) (block_begin blockInput) (activeTupleCount blockInput)"
    and std: "std_sort_result (srt_compare srt) (mem st) (tupleHandles blockInput) ttVector"
    and fit: "refs_fit (m_schema blockInput)" and refs: "refs_in_block (mem st) blockInput"
    and out: "block_invariant blockOutput" "m_schema blockOutput = m_schema blockInput"
      "m_activeTupleCount blockOutput = 0"
      "m_nonInlinedInsertionPoint blockOutput = m_storage blockOutput + BLOCK_SIZE_IN_BYTES"
    and place: "0 \<le> m_storage blockOutput" "m_storage blockOutput + BLOCK_SIZE_IN_BYTES \<le> 2 ^ 64"
      "m_storage blockInput + BLOCK_SIZE_IN_BYTES \<le> m_storage blockOutput
       \<or> m_storage blockOutput + BLOCK_SIZE_IN_BYTES \<le> m_storage blockInput"
  shows "\<exists>st' m2 out'.
     sorter_sort srt st (block_begin blockInput) (block_end blockInput) = Some (Inr st') \<and>
     sortTuplesStdSort (mem st) blockInput blockOutput ttVector = Inr (m2, out') \<and>
     block_invariant out' \<and> activeTupleCount out' = activeTupleCount blockInput \<and>
     ordered lt (mem st') (block_begin blockInput) 0 (activeTupleCount blockInput) \<and>
     (\<forall>k. 0 \<le> k \<and> k < activeTupleCount blockInput \<longrightarrow>
        same_tuple_relocated (m_schema blockInput) (m_storage blockOutput - m_storage blockInput)
          (mem st') (iter_index (block_begin blockInput) k) m2 (iter_index (block_begin out') k)) \<and>
     m_nonInlinedInsertionPoint out'
       = m_nonInlinedInsertionPoint blockInput + (m_storage blockOutput - m_storage blockInput) \<and>
     (\<forall>x. m_nonInlinedInsertionPoint blockInput \<le> x \<and> x < m_storage blockInput + BLOCK_SIZE_IN_BYTES
        \<longrightarrow> mem st' x = mem st x
            \<and> m2 (x + (m_storage blockOutput - m_storage blockInput)) = mem st x) \<and>
     refs_in_block m2 out' \<and>
     (\<forall>k off t. 0 \<le> k \<and> k < activeTupleCount blockInput
           \<and> off \<in> set (stringRefOffsets (m_schema blockInput)) \<and> 0 \<le> t
           \<and> readRef (mem st') (iter_index (block_begin blockInput) k + off) + t
               < m_storage blockInput + BLOCK_SIZE_IN_BYTES
        \<longrightarrow> m2 (readRef m2 (iter_index (block_begin out') k + off) + t)
            = mem st' (readRef (mem st') (iter_index (block_begin blockInput) k + off) + t))"
proof -
  define schema where "schema = m_schema blockInput"
  define L where "L = tupleLength schema + TUPLE_HEADER_SIZE"
  define n where "n = m_activeTupleCount blockInput"
  define sin where "sin = m_storage blockInput"
  define sout where "sout = m_storage blockOutput"
  define niip where "niip = m_nonInlinedInsertionPoint blockInput"
  define m0 where "m0 = mem st"
  define nbytes where "nbytes = sin + BLOCK_SIZE_IN_BYTES - niip"
  define dst where "dst = sout + BLOCK_SIZE_IN_BYTES - nbytes"
  define m1 where "m1 = memcpy m0 dst niip nbytes"
  define out1 where "out1 = blockOutput\<lparr>m_nonInlinedInsertionPoint := dst\<rparr>"
  define out' where "out' = out1\<lparr>m_tupleInsertionPoint := m_tupleInsertionPoint out1 + int (length ttVector) * L,
      m_activeTupleCount := m_activeTupleCount out1 + int (length ttVector)\<rparr>"
  have L': "L = tupleLength (m_schema blockInput) + TUPLE_HEADER_SIZE"
    by (simp add: L_def schema_def)
  have Lpos: "0 < L"
    using inv by (simp add: L' block_invariant_def TUPLE_HEADER_SIZE_def)
  have n0: "0 \<le> n" and tin: "sin + n * L \<le> niip" and nin: "niip \<le> sin + BLOCK_SIZE_IN_BYTES"
    using inv by (simp_all add: block_invariant_def n_def sin_def niip_def L')
  have an: "activeTupleCount blockInput = n" by (simp add: activeTupleCount_def n_def)
  have tout: "m_tupleInsertionPoint blockOutput = sout" and rout: "isResident blockOutput"
    using out(1,3) by (simp_all add: block_invariant_def sout_def)
  have apart: "sin + BLOCK_SIZE_IN_BYTES \<le> sout \<or> sout + BLOCK_SIZE_IN_BYTES \<le> sin"
    using place(3) by (simp add: sin_def sout_def)
  have dst: "sout + n * L \<le> dst" "dst \<le> sout + BLOCK_SIZE_IN_BYTES" "dst = niip + (sout - sin)"
    using tin nin by (simp_all add: dst_def nbytes_def)
  obtain st' where s: "sorter_sort srt st (block_begin blockInput) (block_end blockInput) = Some (Inr st')"
    and rr: "rearranged srt (block_begin blockInput) 0 n m0 (mem st')"
    and oo: "ordered lt (mem st') (block_begin blockInput) 0 n"
    and eq: "tuplesOf (mem st') (block_begin blockInput) 0 n
         = map (\<lambda>t. tupleBytes m0 (tt_address t) L) ttVector"
    using sorted_tuples_handles [OF inv srt swo cmp ties std L'] unfolding an m0_def by blast
  note h = handles_sorted [OF srt cmp std L', unfolded an, folded m0_def]
  have len: "int (length ttVector) = n" using h(1) n0 by simp
  have handle: "\<exists>i. 0 \<le> i \<and> i < n \<and> tt_address t = sin + i * L \<and> tt_schema t = schema"
    if "t \<in> set ttVector" for t
    using h(2) [OF that]
    by (auto simp: toTableTuple_def tt_address_def block_begin_index sin_def L' schema_def)
  have copy: "copyNonInlinedData m0 blockOutput blockInput = Inr (m1, out1)"
    using out(4)
    by (simp add: copyNonInlinedData_def Let_def m1_def out1_def dst_def nbytes_def sin_def sout_def niip_def)
  have o1: "m_schema out1 = schema" "isResident out1" "m_tupleInsertionPoint out1 = sout"
    "m_nonInlinedInsertionPoint out1 = dst" "m_storage out1 = sout" "m_activeTupleCount out1 = 0"
    using out(2,3) tout rout by (simp_all add: out1_def schema_def isResident_def sout_def)
  have pre: "\<forall>t \<in> set ttVector. tt_schema t = schema"
    "m_tupleInsertionPoint out1 + int (length ttVector) * L \<le> m_nonInlinedInsertionPoint out1"
    "\<forall>t \<in> set ttVector. tt_address t + L \<le> m_tupleInsertionPoint out1
        \<or> m_tupleInsertionPoint out1 + int (length ttVector) * L \<le> tt_address t"
  proof -
    show "\<forall>t \<in> set ttVector. tt_schema t = schema" using handle by blast
    show "m_tupleInsertionPoint out1 + int (length ttVector) * L \<le> m_nonInlinedInsertionPoint out1"
      using dst(1) by (simp add: o1 len)
    show "\<forall>t \<in> set ttVector. tt_address t + L \<le> m_tupleInsertionPoint out1
        \<or> m_tupleInsertionPoint out1 + int (length ttVector) * L \<le> tt_address t"
    proof
      fix t assume "t \<in> set ttVector"
      then obtain i where i: "0 \<le> i" "i < n" "tt_address t = sin + i * L" using handle by blast
      have "i * L + L \<le> n * L" "0 \<le> i * L" using idx_bound [OF i(1,2), of 0 L] Lpos by simp_all
      then show "tt_address t + L \<le> m_tupleInsertionPoint out1
        \<or> m_tupleInsertionPoint out1 + int (length ttVector) * L \<le> tt_address t"
        using apart tin nin i(3) by (auto simp: o1 len)
    qed
  qed
  have fit': "refs_fit schema" using fit by (simp add: schema_def)
  obtain m2 where re: "reinsert m1 out1 (address_of blockInput) ttVector = Inr (m2, out')"
    and frame: "\<And>x. \<not> (sout \<le> x \<and> x < sout + int (length ttVector) * L) \<Longrightarrow> m2 x = m1 x"
    and body: "\<And>k d. k < length ttVector \<Longrightarrow> 0 \<le> d \<Longrightarrow> d < L \<Longrightarrow> \<not> in_field schema d \<Longrightarrow>
        m2 (sout + int k * L + d) = m1 (tt_address (ttVector ! k) + d)"
    and ref: "\<And>k off. k < length ttVector \<Longrightarrow> off \<in> set (stringRefOffsets schema) \<Longrightarrow>
        readRef m2 (sout + int k * L + off)
          = (readRef m1 (tt_address (ttVector ! k) + off) + (sout - sin)) mod 2 ^ 64"
  proof -
    from reinsert_spec [OF fit' L_def Lpos o1(1,2) pre, of m1 "address_of blockInput"] that
    show ?thesis
      unfolding out'_def o1 address_of_def sin_def [symmetric] by blast
  qed
  have res: "sortTuplesStdSort m0 blockInput blockOutput ttVector = Inr (m2, out')"
    by (simp add: sortTuplesStdSort_def copy re)
  have o': "m_storage out' = sout" "m_schema out' = schema" "m_activeTupleCount out' = n"
    "m_tupleInsertionPoint out' = sout + n * L" "m_nonInlinedInsertionPoint out' = dst"
    by (simp_all add: out'_def o1 len)
  have inv': "block_invariant out'"
  proof -
    have "isResident out'" using rout by (simp add: isResident_def o' sout_def)
    moreover have "0 \<le> tupleLength schema" using inv by (simp add: block_invariant_def schema_def)
    ultimately show ?thesis
      unfolding block_invariant_def o' L_def [symmetric] using n0 dst(1,2) by simp
  qed
  have cnt: "activeTupleCount out' = n" by (simp add: activeTupleCount_def o')
  have ik: "iter_index (block_begin blockInput) k = sin + k * L"
    "iter_index (block_begin out') k = sout + k * L" for k
    by (simp_all add: block_begin_index sin_def L' o' L_def [symmetric])
  have tup: "same_tuple_relocated schema (sout - sin) (mem st') (sin + k * L) m2 (sout + k * L) \<and>
      (\<forall>off \<in> set (stringRefOffsets schema).
          readRef m2 (sout + k * L + off) = readRef (mem st') (sin + k * L + off) + (sout - sin) \<and>
          niip \<le> readRef (mem st') (sin + k * L + off) \<and>
          readRef (mem st') (sin + k * L + off) < sin + BLOCK_SIZE_IN_BYTES)"
    if k: "0 \<le> k" "k < n" for k
  proof -
    have kl: "nat k < length ttVector" using k len by simp
    define t where "t = ttVector ! nat k"
    have "t \<in> set ttVector" using kl by (simp add: t_def)
    then obtain i where i: "0 \<le> i" "i < n" "tt_address t = sin + i * L" using handle by blast
    have "tuplesOf (mem st') (block_begin blockInput) 0 n ! nat k
        = map (\<lambda>t. tupleBytes m0 (tt_address t) L) ttVector ! nat k"
      by (simp only: eq)
    then have tb: "tupleBytes (mem st') (sin + k * L) L = tupleBytes m0 (sin + i * L) L"
      using kl k
      by (simp add: tuplesOf_nth tupleAt_def block_begin_length L' [symmetric] ik t_def [symmetric] i)
    have in_byte: "mem st' (sin + k * L + d) = m0 (sin + i * L + d)" if "0 \<le> d" "d < L" for d
      by (rule tupleBytes_eqD [OF tb that])
    have src_byte: "m1 (sin + i * L + d) = m0 (sin + i * L + d)" if d: "0 \<le> d" "d < L" for d
    proof -
      have "0 \<le> i * L + d" "i * L + d < n * L" using idx_bound [OF i(1,2) d] by simp_all
      then have "\<not> (dst \<le> sin + i * L + d \<and> sin + i * L + d < dst + nbytes)"
        using apart tin nin dst(1) by (auto simp: dst_def)
      then show ?thesis unfolding m1_def by (rule memcpy_outside)
    qed
    have bytes: "in_field schema d \<or> m2 (sout + k * L + d) = mem st' (sin + k * L + d)"
      if d: "0 \<le> d" "d < L" for d
    proof (cases "in_field schema d")
      case False
      have "m2 (sout + int (nat k) * L + d) = m1 (tt_address (ttVector ! nat k) + d)"
        by (rule body [OF kl d False])
      then show ?thesis
        using k src_byte [OF d] in_byte [OF d] by (simp add: t_def [symmetric] i)
    qed simp
    note rf = refs_fit_D [OF fit', folded L_def]
    have refs': "readRef m2 (sout + k * L + off) = readRef (mem st') (sin + k * L + off) + (sout - sin) \<and>
          niip \<le> readRef (mem st') (sin + k * L + off) \<and>
          readRef (mem st') (sin + k * L + off) < sin + BLOCK_SIZE_IN_BYTES"
      if off: "off \<in> set (stringRefOffsets schema)" for off
    proof -
      have r1: "readRef m1 (sin + i * L + off) = readRef m0 (sin + i * L + off)"
      proof (rule readRef_shift)
        fix j assume "0 \<le> j" "j < STRING_REF_SIZE"
        then show "m1 (sin + i * L + off + j) = m0 (sin + i * L + off + j)"
          using src_byte [of "off + j"] rf(3) [OF off] by (simp add: algebra_simps)
      qed
      have r2: "readRef (mem st') (sin + k * L + off) = readRef m0 (sin + i * L + off)"
      proof (rule readRef_shift)
        fix j assume "0 \<le> j" "j < STRING_REF_SIZE"
        then show "mem st' (sin + k * L + off + j) = m0 (sin + i * L + off + j)"
          using in_byte [of "off + j"] rf(3) [OF off] by (simp add: algebra_simps)
      qed
      have inb: "niip \<le> readRef m0 (sin + i * L + off) \<and> readRef m0 (sin + i * L + off) < sin + BLOCK_SIZE_IN_BYTES"
        using refs_in_block_D [OF refs, of i off] i(1,2) off
        by (simp add: block_begin_index m0_def n_def schema_def L' sin_def niip_def)
      moreover have "0 \<le> n * L" using n0 Lpos by simp
      ultimately have rng: "0 \<le> readRef m0 (sin + i * L + off) + (sout - sin)"
        "readRef m0 (sin + i * L + off) + (sout - sin) < 2 ^ 64"
        using tin place(1,2) by (auto simp: sout_def [symmetric])
      have "readRef m2 (sout + int (nat k) * L + off)
          = (readRef m1 (tt_address (ttVector ! nat k) + off) + (sout - sin)) mod 2 ^ 64"
        by (rule ref [OF kl off])
      then have "readRef m2 (sout + k * L + off) = (readRef m0 (sin + i * L + off) + (sout - sin)) mod 2 ^ 64"
        using k by (simp add: t_def [symmetric] i r1)
      also have "\<dots> = readRef m0 (sin + i * L + off) + (sout - sin)"
        using rng by simp
      finally show ?thesis using inb by (simp add: r2)
    qed
    have "same_tuple_relocated schema (sout - sin) (mem st') (sin + k * L) m2 (sout + k * L)"
      unfolding same_tuple_relocated_def L_def [symmetric]
      using bytes refs' by (simp add: list_all_iff algebra_simps)
    then show ?thesis using refs' by blast
  qed
  have reg_in: "mem st' x = m0 x" if x: "niip \<le> x" "x < sin + BLOCK_SIZE_IN_BYTES" for x
  proof -
    have "\<not> in_tuples (block_begin blockInput) 0 n x \<and> \<not> in_scratch srt x"
      using non_inlined_outside [OF inv srt, of x] x unfolding an niip_def sin_def by simp
    then show ?thesis using rr by (simp add: rearranged_def)
  qed
  have reg_out: "m2 (x + (sout - sin)) = m0 x" if x: "niip \<le> x" "x < sin + BLOCK_SIZE_IN_BYTES" for x
  proof -
    have "m2 (x + (sout - sin)) = m1 (x + (sout - sin))"
      using x dst(1,3) by (intro frame) (simp add: len)
    also have "\<dots> = m0 (niip + (x + (sout - sin) - dst))"
      unfolding m1_def using x dst(3) by (intro memcpy_inside) (simp_all add: nbytes_def)
    also have "\<dots> = m0 x" using dst(3) by simp
    finally show ?thesis .
  qed
  have same: "same_tuple_relocated schema (sout - sin) (mem st') (iter_index (block_begin blockInput) k)
        m2 (iter_index (block_begin out') k)" if "0 \<le> k" "k < n" for k
    using tup [OF that] by (simp add: ik)
  have rib: "refs_in_block m2 out'"
    unfolding refs_in_block_def o' ik list_all_iff
  proof (intro ballI)
    fix k off assume "k \<in> set [0..n - 1]" and off: "off \<in> set (stringRefOffsets schema)"
    then have k: "0 \<le> k" "k < n" by simp_all
    show "dst \<le> readRef m2 (sout + k * L + off) \<and> readRef m2 (sout + k * L + off) < sout + BLOCK_SIZE_IN_BYTES"
      using tup [OF k] off dst(3) by auto
  qed
  have reads: "m2 (readRef m2 (iter_index (block_begin out') k + off) + t)
        = mem st' (readRef (mem st') (iter_index (block_begin blockInput) k + off) + t)"
    if k: "0 \<le> k" "k < n" and off: "off \<in> set (stringRefOffsets schema)" and t: "0 \<le> t"
      "readRef (mem st') (iter_index (block_begin blockInput) k + off) + t < sin + BLOCK_SIZE_IN_BYTES"
    for k off t
  proof -
    define r where "r = readRef (mem st') (sin + k * L + off)"
    have r: "readRef m2 (sout + k * L + off) = r + (sout - sin)" "niip \<le> r"
      using tup [OF k] off by (simp_all add: r_def)
    have x: "niip \<le> r + t" "r + t < sin + BLOCK_SIZE_IN_BYTES"
      using r(2) t by (simp_all add: ik r_def)
    have "m2 (r + (sout - sin) + t) = m2 (r + t + (sout - sin))" by (simp add: algebra_simps)
    also have "\<dots> = m0 (r + t)" by (rule reg_out [OF x])
    also have "\<dots> = mem st' (r + t)" by (rule reg_in [OF x, symmetric])
    finally show ?thesis by (simp add: ik r r_def [symmetric])
  qed
  have niip': "m_nonInlinedInsertionPoint out' = niip + (sout - sin)"
    by (simp add: o' dst(3))
  have region: "mem st' x = m0 x \<and> m2 (x + (sout - sin)) = m0 x"
    if "niip \<le> x" "x < sin + BLOCK_SIZE_IN_BYTES" for x
    using reg_in [OF that] reg_out [OF that] by simp
  show ?thesis
    unfolding an m0_def [symmetric] schema_def [symmetric] sin_def [symmetric] sout_def [symmetric]
      niip_def [symmetric]
    using s res inv' cnt oo same niip' region rib reads
    by blast
qed

theorem sort_strategies_agree_witness:
  "\<exists>st' m2 out'.
     sorter_sort example_ref_sorter \<lparr>mem = example_ref_memory, compareCalls = 0, swapCalls = 0\<rparr>
       (block_begin example_ref_block) (block_end example_ref_block) = Some (Inr st') \<and>
     sortTuplesStdSort example_ref_memory example_ref_block example_ref_output example_ref_sorted
       = Inr (m2, out') \<and>
     activeTupleCount out' = 2 \<and>
     same_tuple_relocated example_ref_schema 16773120 (mem st') 4096 m2 (iter_index (block_begin out') 0) \<and>
     same_tuple_relocated example_ref_schema 16773120 (mem st') 4106 m2 (iter_index (block_begin out') 1) \<and>
     m_nonInlinedInsertionPoint out' = 25165820 \<and>
     m2 25165820 = 97 \<and> m2 25165821 = 98 \<and> m2 25165822 = 99 \<and> m2 25165823 = 100 \<and>
     refs_in_block m2 out' \<and>
     m2 (readRef m2 (iter_index (block_begin out') 0 + 2) + 1) = 100 \<and>
     m2 (readRef m2 (iter_index (block_begin out') 1 + 2) + 1) = 98"
proof -
  have v: "m_schema example_ref_block = example_ref_schema" "activeTupleCount example_ref_block = 2"
    "m_storage example_ref_block = 4096" "m_storage example_ref_output = 16777216"
    "srt_compare example_ref_sorter = first_byte_less"
    "m_nonInlinedInsertionPoint example_ref_block = 8392700"
    "stringRefOffsets example_ref_schema = [2]"
    by (simp_all add: example_ref_block_def activeTupleCount_def example_ref_output_def
        example_ref_sorter_def LTTBlockSorter_new_def example_ref_schema_def)
  have fit: "refs_fit (m_schema example_ref_block)" using example_refs_fit by (simp add: v)
  have cmp: "compares_as (\<lambda>x y. x ! 1 < y ! 1) example_ref_sorter (block_begin example_ref_block)
      (activeTupleCount example_ref_block)
      (mem \<lparr>mem = example_ref_memory, compareCalls = 0, swapCalls = 0\<rparr>)"
    by (rule example_ref_compares)
  have ties: "ties_identical (\<lambda>x y. x ! 1 < y ! 1)
      (mem \<lparr>mem = example_ref_memory, compareCalls = 0, swapCalls = 0\<rparr>)
      (block_begin example_ref_block) (activeTupleCount example_ref_block)"
    using example_ref_ties by (simp add: v)
  have std: "std_sort_result (srt_compare example_ref_sorter)
      (mem \<lparr>mem = example_ref_memory, compareCalls = 0, swapCalls = 0\<rparr>)
      (tupleHandles example_ref_block) example_ref_sorted"
    using example_ref_std_sort by (simp add: v)
  have refs: "refs_in_block (mem \<lparr>mem = example_ref_memory, compareCalls = 0, swapCalls = 0\<rparr>)
      example_ref_block"
    using example_refs_in_block by simp
  obtain st' m2 out' where r:
    "sorter_sort example_ref_sorter \<lparr>mem = example_ref_memory, compareCalls = 0, swapCalls = 0\<rparr>
       (block_begin example_ref_block) (block_end example_ref_block) = Some (Inr st')"
    "sortTuplesStdSort example_ref_memory example_ref_block example_ref_output example_ref_sorted
       = Inr (m2, out')"
    "activeTupleCount out' = 2"
    "m_nonInlinedInsertionPoint out' = 25165820"
    "refs_in_block m2 out'"
    and same: "\<forall>k. 0 \<le> k \<and> k < 2 \<longrightarrow>
        same_tuple_relocated example_ref_schema 16773120
          (mem st') (iter_index (block_begin example_ref_block) k) m2 (iter_index (block_begin out') k)"
    and region: "\<forall>x. 8392700 \<le> x \<and> x < 4096 + BLOCK_SIZE_IN_BYTES
        \<longrightarrow> mem st' x = example_ref_memory x \<and> m2 (x + 16773120) = example_ref_memory x"
    and reads: "\<forall>k off t. 0 \<le> k \<and> k < 2 \<and> off \<in> set (stringRefOffsets example_ref_schema) \<and> 0 \<le> t
           \<and> readRef (mem st') (iter_index (block_begin example_ref_block) k + off) + t
               < 4096 + BLOCK_SIZE_IN_BYTES
        \<longrightarrow> m2 (readRef m2 (iter_index (block_begin out') k + off) + t)
            = mem st' (readRef (mem st') (iter_index (block_begin example_ref_block) k + off) + t)"
    using sort_strategies_agree [OF example_ref_invariant example_ref_sorter_for example_order cmp ties
        std fit refs example_ref_output_fresh]
    unfolding v SortState.simps
    by (elim exE conjE) simp
  have sorted_refs: "readRef (mem st') 4098 = 8392702" "readRef (mem st') 4108 = 8392700"
    using example_ref_sorted_refs r(1) by simp_all
  have bytes: "example_ref_memory 8392700 = 97" "example_ref_memory 8392701 = 98"
    "example_ref_memory 8392702 = 99" "example_ref_memory 8392703 = 100"
    by code_simp+
  from same [rule_format, of 0] same [rule_format, of 1]
    region [rule_format, of 8392700] region [rule_format, of 8392701]
    region [rule_format, of 8392702] region [rule_format, of 8392703]
    reads [rule_format, of 0 2 1] reads [rule_format, of 1 2 1] r
  show ?thesis
    by (simp add: example_ref_begin iter_index_eq sorted_refs bytes v BLOCK_SIZE_IN_BYTES_def)
qed

theorem sort_strategies_differ_on_ties:
  "block_invariant example_tie_block \<and> sorter_for example_tie_sorter example_tie_block \<and>
   strict_weak_order (\<lambda>x y :: byte list. x ! 1 < y ! 1) \<and>
   compares_as (\<lambda>x y. x ! 1 < y ! 1) example_tie_sorter (block_begin example_tie_block) 5 example_tie_memory \<and>
   std_sort_result first_byte_less example_tie_memory (tupleHandles example_tie_block) example_tie_sorted \<and>
   (case sorter_sort example_tie_sorter \<lparr>mem = example_tie_memory, compareCalls = 0, swapCalls = 0\<rparr>
           (block_begin example_tie_block) (block_end example_tie_block) of
      Some (Inr st') \<Rightarrow>
        tuplesOf (mem st') (block_begin example_tie_block) 0 5
          = [[1, 1, 12], [1, 2, 11], [1, 2, 10], [1, 2, 14], [1, 3, 13]]
    | _ \<Rightarrow> False) \<and>
   (case sortTuplesStdSort example_tie_memory example_tie_block example_tie_output example_tie_sorted of
      Inr (m2, out') \<Rightarrow>
        tuplesOf m2 (block_begin out') 0 5
          = [[1, 1, 12], [1, 2, 10], [1, 2, 11], [1, 2, 14], [1, 3, 13]]
    | _ \<Rightarrow> False)"
proof -
  have "block_invariant example_tie_block"
    by (simp add: block_invariant_def example_tie_block_def example_tie_schema_def isResident_def
        TUPLE_HEADER_SIZE_def BLOCK_SIZE_IN_BYTES_def)
  moreover have "sorter_for example_tie_sorter example_tie_block"
    by (simp add: sorter_for_def example_tie_sorter_def LTTBlockSorter_new_def example_tie_block_def
        toTableTuple_def tt_address_def tt_tupleLength_def example_tie_schema_def TUPLE_HEADER_SIZE_def)
  moreover have "strict_weak_order (\<lambda>x y :: byte list. x ! 1 < y ! 1)"
    by (rule example_order)
  moreover have "block_begin example_tie_block = \<lparr>m_tupleLength = 3, m_tupleAddress = 4096\<rparr>"
    by (simp add: block_begin_def example_tie_block_def example_tie_schema_def LttBlockIterator_schema_def
        address_of_def TUPLE_HEADER_SIZE_def)
  then have "compares_as (\<lambda>x y. x ! 1 < y ! 1) example_tie_sorter (block_begin example_tie_block) 5
      example_tie_memory"
    by (simp add: compares_as_def example_tie_sorter_def LTTBlockSorter_new_def first_byte_less_def
        toTableTuple_def tupleAt_def tupleBytes_def upto_rec1)
  moreover have "std_sort_result first_byte_less example_tie_memory (tupleHandles example_tie_block)
      example_tie_sorted"
    by code_simp
  moreover have "(case sorter_sort example_tie_sorter \<lparr>mem = example_tie_memory, compareCalls = 0, swapCalls = 0\<rparr>
           (block_begin example_tie_block) (block_end example_tie_block) of
      Some (Inr st') \<Rightarrow>
        tuplesOf (mem st') (block_begin example_tie_block) 0 5
          = [[1, 1, 12], [1, 2, 11], [1, 2, 10], [1, 2, 14], [1, 3, 13]]
    | _ \<Rightarrow> False)"
    by code_simp
  moreover have "(case sortTuplesStdSort example_tie_memory example_tie_block example_tie_output example_tie_sorted of
      Inr (m2, out') \<Rightarrow>
        tuplesOf m2 (block_begin out') 0 5
          = [[1, 1, 12], [1, 2, 10], [1, 2, 11], [1, 2, 14], [1, 3, 13]]
    | _ \<Rightarrow> False)"
    by code_simp
  ultimately show ?thesis by blast
qed


end
